theory Spec2Isabelle
  imports Main "HOL-Library.AList"
begin

section \<open>Python values of the evidence payload\<close>

text \<open>
  The payload handed to \<^verbatim>\<open>_shrink_payload\<close> is a tree of Python dicts, lists,
  strings, integers, booleans and \<^verbatim>\<open>None\<close>. A dict keeps its insertion order and
  its keys are strings, so it is an association list; \<^verbatim>\<open>d[k] = v\<close> is
  \<open>AList.update\<close> (an existing key keeps its place, a new key goes last).
  A string is a list of characters, one \<open>char\<close> per code point (code points
  below 256), so \<open>length\<close> is Python's \<^verbatim>\<open>len\<close>. The payload is a tree: the
  assembler shares no mutable object between two places, and \<^verbatim>\<open>copy.deepcopy\<close>
  gives the loop a private copy, so in-place mutation is modelled by returning the
  updated tree.
\<close>

datatype json =
    JNull
  | JBool bool
  | JInt int
  | JStr string
  | JList "json list"
  | JDict "(string \<times> json) list"

datatype py_error = AttributeError | TypeError | KeyError

text \<open>
  The records of the extractors and the configured limits. An HTML element is what the
  extractor reads of it: its tag name, its attribute dict (BeautifulSoup gives a
  multi-valued attribute such as \<^verbatim>\<open>rel\<close> as a list of tokens, any other as a
  string), what \<^verbatim>\<open>str(el)\<close> returns (\<open>None\<close> when it raises) and its
  \<^verbatim>\<open>text\<close> attribute (\<open>None\<close> when it has none).
\<close>

datatype attr_value = AStr string | AToks "string list"

record limits =
  MAX_HTML_EVIDENCE_PER_BUCKET :: int
  MAX_JS_FILES :: int
  MAX_JS_EVIDENCE_PER_FILE :: int
  MAX_STR_FIELD :: int

record element =
  el_name :: string
  el_attrs :: "(string \<times> attr_value) list"
  el_str :: "string option"
  el_text :: "string option"

record js_href_evidence =
  jh_outer_html :: string
  jh_href :: string

record target_blank_evidence =
  tb_outer_html :: string
  tb_href :: string
  tb_href_abs :: "string option"
  tb_target :: "attr_value option"
  tb_rel :: "attr_value option"

record link_evidence =
  ln_outer_html :: string
  ln_href :: string
  ln_href_abs :: "string option"

record anchor_buckets =
  javascript_href_links :: "js_href_evidence list"
  target_blank_without_noopener :: "target_blank_evidence list"
  links :: "link_evidence list"

record js_hit =
  hit_pattern :: string
  hit_regex :: string
  hit_filename :: string
  hit_line_no :: nat
  hit_context :: "(nat \<times> string) list"

definition ebind :: "'e + 'a \<Rightarrow> ('a \<Rightarrow> 'e + 'b) \<Rightarrow> 'e + 'b" where
  "ebind m f = (case m of Inl e \<Rightarrow> Inl e | Inr v \<Rightarrow> f v)"

text \<open>\<^verbatim>\<open>d.get(k, default)\<close>: only a dict has the method.\<close>

fun py_get :: "json \<Rightarrow> string \<Rightarrow> json \<Rightarrow> py_error + json" where
  "py_get (JDict kvs) k d = Inr (case map_of kvs k of None \<Rightarrow> d | Some v \<Rightarrow> v)"
| "py_get _ k d = Inl AttributeError"

text \<open>\<^verbatim>\<open>d[k]\<close> on a dict (the places that read by subscript all hold dicts).\<close>

fun py_getitem :: "json \<Rightarrow> string \<Rightarrow> py_error + json" where
  "py_getitem (JDict kvs) k = (case map_of kvs k of None \<Rightarrow> Inl KeyError | Some v \<Rightarrow> Inr v)"
| "py_getitem _ k = Inl TypeError"

text \<open>\<^verbatim>\<open>d[k] = v\<close>.\<close>

fun py_setitem :: "json \<Rightarrow> string \<Rightarrow> json \<Rightarrow> py_error + json" where
  "py_setitem (JDict kvs) k v = Inr (JDict (AList.update k v kvs))"
| "py_setitem _ k v = Inl TypeError"

fun py_len :: "json \<Rightarrow> py_error + nat" where
  "py_len (JStr s) = Inr (length s)"
| "py_len (JList xs) = Inr (length xs)"
| "py_len (JDict kvs) = Inr (length kvs)"
| "py_len _ = Inl TypeError"

text \<open>
  Python slices: \<^verbatim>\<open>xs[:n]\<close> and \<^verbatim>\<open>xs[n:]\<close>, where a negative bound counts
  from the end. A string and a list can be sliced; a slice of a dict raises (a
  \<^verbatim>\<open>TypeError\<close> before Python 3.12, a \<^verbatim>\<open>KeyError\<close> since).
\<close>

definition slice_to :: "int \<Rightarrow> 'a list \<Rightarrow> 'a list" where
  "slice_to n xs = (if 0 \<le> n then take (nat n) xs else take (length xs - nat (- n)) xs)"

definition slice_from :: "int \<Rightarrow> 'a list \<Rightarrow> 'a list" where
  "slice_from n xs = (if 0 \<le> n then drop (nat n) xs else drop (length xs - nat (- n)) xs)"

fun py_slice_to :: "json \<Rightarrow> int \<Rightarrow> py_error + json" where
  "py_slice_to (JStr s) n = Inr (JStr (slice_to n s))"
| "py_slice_to (JList xs) n = Inr (JList (slice_to n xs))"
| "py_slice_to _ n = Inl TypeError"

text \<open>\<^verbatim>\<open>for f in x\<close>: a list gives its items, a string its characters, a dict its keys.\<close>

fun py_iter :: "json \<Rightarrow> py_error + json list" where
  "py_iter (JList xs) = Inr xs"
| "py_iter (JStr s) = Inr (map (\<lambda>c. JStr [c]) s)"
| "py_iter (JDict kvs) = Inr (map (\<lambda>kv. JStr (fst kv)) kvs)"
| "py_iter _ = Inl TypeError"

section \<open>The canonical measurement: \<^verbatim>\<open>len(json.dumps(obj, ensure_ascii=False))\<close>\<close>

definition dq :: char where "dq = CHR 0x22"
definition bsl :: char where "bsl = CHR 0x5C"
definition nl :: char where "nl = CHR 0x0A"

definition hexdigit :: "nat \<Rightarrow> char" where
  "hexdigit n = (if n < 10 then char_of (48 + n) else char_of (87 + n))"

definition escape_char :: "char \<Rightarrow> string" where
  "escape_char c =
     (if c = dq then [bsl, dq]
      else if c = bsl then [bsl, bsl]
      else if c = nl then [bsl, CHR ''n'']
      else if c = CHR 0x0D then [bsl, CHR ''r'']
      else if c = CHR 0x09 then [bsl, CHR ''t'']
      else if c = CHR 0x08 then [bsl, CHR ''b'']
      else if c = CHR 0x0C then [bsl, CHR ''f'']
      else if (of_char c :: nat) < 32
        then [bsl, CHR ''u'', CHR ''0'', CHR ''0'',
              hexdigit ((of_char c :: nat) div 16), hexdigit ((of_char c :: nat) mod 16)]
      else [c])"

definition dumps_str :: "string \<Rightarrow> string" where
  "dumps_str s = dq # concat (map escape_char s) @ [dq]"

fun join :: "string \<Rightarrow> string list \<Rightarrow> string" where
  "join sep [] = []"
| "join sep [x] = x"
| "join sep (x # y # ys) = x @ sep @ join sep (y # ys)"

function show_nat :: "nat \<Rightarrow> string" where
  "show_nat n = (if n < 10 then [char_of (48 + n)] else show_nat (n div 10) @ [char_of (48 + n mod 10)])"
  by pat_completeness auto
termination
  by (relation "measure id") auto

definition show_int :: "int \<Rightarrow> string" where
  "show_int i = (if i < 0 then CHR ''-'' # show_nat (nat (- i)) else show_nat (nat i))"

fun dumps :: "json \<Rightarrow> string" where
  "dumps JNull = ''null''"
| "dumps (JBool b) = (if b then ''true'' else ''false'')"
| "dumps (JInt i) = show_int i"
| "dumps (JStr s) = dumps_str s"
| "dumps (JList xs) = ''['' @ join '', '' (map dumps xs) @ '']''"
| "dumps (JDict kvs) =
     ''{'' @ join '', '' (map (\<lambda>kv. dumps_str (fst kv) @ '': '' @ dumps (snd kv)) kvs) @ ''}''"

definition size_obj :: "json \<Rightarrow> nat" where
  "size_obj obj = length (dumps obj)"

section \<open>Configured limits\<close>

definition default_limits :: limits where
  "default_limits = \<lparr> MAX_HTML_EVIDENCE_PER_BUCKET = 50, MAX_JS_FILES = 50,
     MAX_JS_EVIDENCE_PER_FILE = 25, MAX_STR_FIELD = 4000 \<rparr>"

section \<open>Head and tail elision of a long string\<close>

text \<open>
  \<^verbatim>\<open>int(limit * 0.6)\<close> and \<^verbatim>\<open>int(limit * 0.3)\<close> round toward zero. The double
  product is the exact integer where \<open>6 * limit\<close> (\<open>3 * limit\<close>) is a multiple of
  ten and lies strictly between two integers otherwise (for limits below \<open>2^50\<close>),
  so the result is the integer quotient of the magnitudes, with the sign of the limit.
\<close>

definition int_scale :: "int \<Rightarrow> int \<Rightarrow> int" where
  "int_scale tenths limit = (if 0 \<le> limit then (tenths * limit) div 10 else - ((tenths * (- limit)) div 10))"

definition truncate_text :: "string option \<Rightarrow> int \<Rightarrow> string" where
  "truncate_text s limit =
     (case s of
        None \<Rightarrow> ''''
      | Some s \<Rightarrow>
          if int (length s) \<le> limit then s
          else slice_to (int_scale 6 limit) s @ [nl] @ ''...'' @ [nl] @ slice_from (- int_scale 3 limit) s)"

section \<open>The compactor\<close>

text \<open>
  The nested \<^verbatim>\<open>truncate(node)\<close>: in a dict, the value under \<^verbatim>\<open>outer_html\<close> is
  skipped whatever it is, a string under another key is elided when it is longer than
  \<^verbatim>\<open>MAX_STR_FIELD\<close>, and any other value is walked; in a list every item is walked
  (a string that is an item of a list is neither a dict nor a list and stays).
\<close>

fun truncate :: "limits \<Rightarrow> json \<Rightarrow> json" where
  "truncate cfg (JDict kvs) =
     JDict (map (\<lambda>kv.
        if fst kv = ''outer_html'' then kv
        else (case snd kv of
                JStr v \<Rightarrow>
                  if int (length v) > MAX_STR_FIELD cfg
                  then (fst kv, JStr (truncate_text (Some v) (MAX_STR_FIELD cfg)))
                  else kv
              | JNull \<Rightarrow> kv
              | JBool b \<Rightarrow> kv
              | JInt i \<Rightarrow> kv
              | JList xs \<Rightarrow> (fst kv, truncate cfg (snd kv))
              | JDict d \<Rightarrow> (fst kv, truncate cfg (snd kv)))) kvs)"
| "truncate cfg (JList xs) = JList (map (truncate cfg) xs)"
| "truncate cfg v = v"

text \<open>
  Step 2 of the loop body: \<^verbatim>\<open>js_files = cur.get("javascript", {}).get("files", [])\<close>
  and \<^verbatim>\<open>cur["javascript"]["files"] = js_files[:MAX_JS_FILES]\<close>.
\<close>

definition get_files :: "json \<Rightarrow> py_error + json" where
  "get_files cur = ebind (py_get cur ''javascript'' (JDict [])) (\<lambda>j. py_get j ''files'' (JList []))"

definition set_files :: "json \<Rightarrow> json \<Rightarrow> py_error + json" where
  "set_files cur v =
     ebind (py_getitem cur ''javascript'') (\<lambda>j.
     ebind (py_setitem j ''files'' v) (\<lambda>j'.
     py_setitem cur ''javascript'' j'))"

text \<open>
  Step 3: every file whose \<^verbatim>\<open>evidences\<close> are more than
  \<^verbatim>\<open>MAX_JS_EVIDENCE_PER_FILE\<close> gets \<^verbatim>\<open>f["evidences"] = f["evidences"][:MAX]\<close>;
  the flag says whether any file was cut.
\<close>

definition limit_file :: "limits \<Rightarrow> json \<Rightarrow> py_error + (json \<times> bool)" where
  "limit_file cfg f =
     ebind (py_get f ''evidences'' (JList [])) (\<lambda>ev.
     ebind (py_len ev) (\<lambda>n.
       if int n > MAX_JS_EVIDENCE_PER_FILE cfg then
         ebind (py_getitem f ''evidences'') (\<lambda>e.
         ebind (py_slice_to e (MAX_JS_EVIDENCE_PER_FILE cfg)) (\<lambda>sl.
         ebind (py_setitem f ''evidences'' sl) (\<lambda>f'. Inr (f', True))))
       else Inr (f, False)))"

fun limit_files :: "limits \<Rightarrow> json list \<Rightarrow> py_error + (json list \<times> bool)" where
  "limit_files cfg [] = Inr ([], False)"
| "limit_files cfg (f # fs) =
     ebind (limit_file cfg f) (\<lambda>r.
     ebind (limit_files cfg fs) (\<lambda>rs.
     Inr (fst r # fst rs, snd r \<or> snd rs)))"

text \<open>
  The files are mutated in place, so a cut shows in \<^verbatim>\<open>cur\<close>. A file can only be
  cut when the loop ran over the items of the list stored under
  \<^verbatim>\<open>cur["javascript"]["files"]\<close> (the defaults are empty, and the characters of a
  string or the keys of a dict have no \<^verbatim>\<open>get\<close>), which is where the result is
  written back. \<open>None\<close> is \<^verbatim>\<open>shrunk = False\<close>.
\<close>

definition limit_evidences :: "limits \<Rightarrow> json \<Rightarrow> py_error + json option" where
  "limit_evidences cfg cur =
     ebind (get_files cur) (\<lambda>files.
     ebind (py_iter files) (\<lambda>items.
     ebind (limit_files cfg items) (\<lambda>r.
       if snd r then ebind (set_files cur (JList (fst r))) (\<lambda>cur'. Inr (Some cur'))
       else Inr None)))"

text \<open>
  Step 4: \<^verbatim>\<open>html_high = cur.get("html", {}).get("highlights", {})\<close>, and every
  list-valued bucket longer than \<^verbatim>\<open>MAX_HTML_EVIDENCE_PER_BUCKET\<close> is cut.
\<close>

definition get_highlights :: "json \<Rightarrow> py_error + json" where
  "get_highlights cur = ebind (py_get cur ''html'' (JDict [])) (\<lambda>h. py_get h ''highlights'' (JDict []))"

definition set_highlights :: "json \<Rightarrow> json \<Rightarrow> py_error + json" where
  "set_highlights cur v =
     ebind (py_getitem cur ''html'') (\<lambda>h.
     ebind (py_setitem h ''highlights'' v) (\<lambda>h'.
     py_setitem cur ''html'' h'))"

fun py_items :: "json \<Rightarrow> py_error + (string \<times> json) list" where
  "py_items (JDict kvs) = Inr kvs"
| "py_items _ = Inl AttributeError"

definition bucket_over :: "limits \<Rightarrow> json \<Rightarrow> bool" where
  "bucket_over cfg arr =
     (case arr of JList xs \<Rightarrow> int (length xs) > MAX_HTML_EVIDENCE_PER_BUCKET cfg | _ \<Rightarrow> False)"

definition limit_bucket :: "limits \<Rightarrow> string \<times> json \<Rightarrow> string \<times> json" where
  "limit_bucket cfg kv =
     (case snd kv of
        JList xs \<Rightarrow>
          if int (length xs) > MAX_HTML_EVIDENCE_PER_BUCKET cfg
          then (fst kv, JList (slice_to (MAX_HTML_EVIDENCE_PER_BUCKET cfg) xs))
          else kv
      | _ \<Rightarrow> kv)"

definition limit_highlights :: "limits \<Rightarrow> json \<Rightarrow> py_error + json option" where
  "limit_highlights cfg cur =
     ebind (get_highlights cur) (\<lambda>html_high.
     ebind (py_items html_high) (\<lambda>kvs.
       if list_ex (\<lambda>kv. bucket_over cfg (snd kv)) kvs
       then ebind (set_highlights cur (JDict (map (limit_bucket cfg) kvs))) (\<lambda>cur'. Inr (Some cur'))
       else Inr None))"

text \<open>
  One pass of the loop body after the size test: the first step that applies ends the
  pass (\<^verbatim>\<open>continue\<close>); the string walk runs only when no structural cut applied.
\<close>

definition shrink_step :: "limits \<Rightarrow> json \<Rightarrow> py_error + json" where
  "shrink_step cfg cur =
     ebind (get_files cur) (\<lambda>js_files.
     ebind (py_len js_files) (\<lambda>n.
       if int n > MAX_JS_FILES cfg then
         ebind (py_slice_to js_files (MAX_JS_FILES cfg)) (\<lambda>sl. set_files cur sl)
       else
         ebind (limit_evidences cfg cur) (\<lambda>r.
           case r of
             Some cur' \<Rightarrow> Inr cur'
           | None \<Rightarrow>
               ebind (limit_highlights cfg cur) (\<lambda>r.
                 case r of
                   Some cur' \<Rightarrow> Inr cur'
                 | None \<Rightarrow> Inr (truncate cfg cur)))))"

text \<open>
  \<^verbatim>\<open>for _ in range(20)\<close>: the size is tested before each pass and never after the
  last one.
\<close>

fun shrink_loop :: "limits \<Rightarrow> int \<Rightarrow> nat \<Rightarrow> json \<Rightarrow> py_error + json" where
  "shrink_loop cfg limit 0 cur = Inr cur"
| "shrink_loop cfg limit (Suc n) cur =
     (if int (size_obj cur) \<le> limit then Inr cur
      else ebind (shrink_step cfg cur) (shrink_loop cfg limit n))"

definition shrink_payload :: "limits \<Rightarrow> json \<Rightarrow> int \<Rightarrow> py_error + json" where
  "shrink_payload cfg payload limit = shrink_loop cfg limit 20 payload"

text \<open>The passes alone, without the size test: \<open>k\<close> applications of the loop body.\<close>

fun iter_step :: "limits \<Rightarrow> nat \<Rightarrow> json \<Rightarrow> py_error + json" where
  "iter_step cfg 0 cur = Inr cur"
| "iter_step cfg (Suc k) cur = ebind (shrink_step cfg cur) (iter_step cfg k)"

section \<open>URL resolution\<close>

text \<open>
  \<^verbatim>\<open>str.isspace\<close>, \<^verbatim>\<open>str.strip\<close> and \<^verbatim>\<open>str.lower\<close> on code points below 256.
\<close>

definition py_isspace :: "char \<Rightarrow> bool" where
  "py_isspace c =
     (let n = (of_char c :: nat)
      in (9 \<le> n \<and> n \<le> 13) \<or> (28 \<le> n \<and> n \<le> 32) \<or> n = 133 \<or> n = 160)"

definition py_strip :: "string \<Rightarrow> string" where
  "py_strip s = rev (dropWhile py_isspace (rev (dropWhile py_isspace s)))"

definition lower_char :: "char \<Rightarrow> char" where
  "lower_char c =
     (let n = (of_char c :: nat)
      in if (65 \<le> n \<and> n \<le> 90) \<or> (192 \<le> n \<and> n \<le> 222 \<and> n \<noteq> 215)
         then char_of (n + 32) else c)"

definition py_lower :: "string \<Rightarrow> string" where
  "py_lower s = map lower_char s"

definition startswith :: "string \<Rightarrow> string \<Rightarrow> bool" where
  "startswith s pre = (take (length pre) s = pre)"

definition is_data_uri :: "string option \<Rightarrow> bool" where
  "is_data_uri u = (case u of None \<Rightarrow> False | Some s \<Rightarrow> startswith (py_lower (py_strip s)) ''data:'')"

text \<open>
  \<^verbatim>\<open>urllib.parse.urljoin\<close> is the standard library's: it is a parameter, giving the
  joined URL or the exception it raised. \<^verbatim>\<open>base_url or ""\<close> is the empty string for
  \<^verbatim>\<open>None\<close>.
\<close>

definition abs_url :: "(string \<Rightarrow> string \<Rightarrow> 'e + string) \<Rightarrow> string option \<Rightarrow> string option \<Rightarrow> string option" where
  "abs_url urljoin base_url maybe_rel =
     (case maybe_rel of
        None \<Rightarrow> None
      | Some r \<Rightarrow>
          if r = [] then None
          else if is_data_uri (Some r) then Some r
          else (case urljoin (case base_url of None \<Rightarrow> [] | Some b \<Rightarrow> b) r of
                  Inr u \<Rightarrow> Some u
                | Inl e \<Rightarrow> Some r))"

text \<open>
  The claimed resolution rule in the spec's words: a reference of the \<^verbatim>\<open>data:\<close>
  scheme passes through, any other is resolved against the base, and a failed
  resolution falls back to the raw reference.
\<close>

definition spec_abs_url :: "(string \<Rightarrow> string \<Rightarrow> 'e + string) \<Rightarrow> string \<Rightarrow> string \<Rightarrow> string" where
  "spec_abs_url urljoin base r =
     (if startswith (py_lower (py_strip r)) ''data:'' then r
      else (case urljoin base r of Inr u \<Rightarrow> u | Inl e \<Rightarrow> r))"

text \<open>
  A resolver to instantiate the parameter at concrete inputs. It is not the library's
  \<^verbatim>\<open>urljoin\<close>, only a function that agrees with it on the references used
  below: with an empty base the reference is returned, an empty reference gives the
  base, a reference with an unclosed bracket after \<^verbatim>\<open>http://\<close> raises (the invalid
  IPv6 literal of \<^verbatim>\<open>urlsplit\<close>), another reference of the \<^verbatim>\<open>http\<close> or
  \<^verbatim>\<open>https\<close> scheme is returned, a reference that starts with a slash replaces
  the path of the base, and any other is appended to the directory of the base.
\<close>

definition url_origin :: "string \<Rightarrow> string" where
  "url_origin base =
     (let scheme = takeWhile (\<lambda>c. c \<noteq> CHR ''/'') base
      in scheme @ ''//'' @ takeWhile (\<lambda>c. c \<noteq> CHR ''/'') (drop (length scheme + 2) base))"

definition sample_urljoin :: "string \<Rightarrow> string \<Rightarrow> unit + string" where
  "sample_urljoin base r =
     (if base = [] then Inr r
      else if r = [] then Inr base
      else if startswith r ''http://['' \<and> CHR '']'' \<notin> set r then Inl ()
      else if startswith r ''http:'' \<or> startswith r ''https:'' then Inr r
      else if startswith r ''/'' then Inr (url_origin base @ r)
      else Inr (rev (dropWhile (\<lambda>c. c \<noteq> CHR ''/'') (rev base)) @ r))"

section \<open>Anchors of the HTML extractor\<close>

text \<open>
  The nested \<^verbatim>\<open>outer(el)\<close>: \<^verbatim>\<open>str(el)\<close>, and when that raises, the text of
  the element or the empty string.
\<close>

definition outer :: "element \<Rightarrow> string" where
  "outer el =
     (case el_str el of
        Some s \<Rightarrow> s
      | None \<Rightarrow> (case el_text el of Some t \<Rightarrow> t | None \<Rightarrow> []))"

definition el_get :: "element \<Rightarrow> string \<Rightarrow> attr_value option" where
  "el_get el k = map_of (el_attrs el) k"

text \<open>\<^verbatim>\<open>"noopener" in s\<close>: a substring test.\<close>

fun contains :: "string \<Rightarrow> string \<Rightarrow> bool" where
  "contains [] sub = (sub = [])"
| "contains (c # cs) sub = (startswith (c # cs) sub \<or> contains cs sub)"

text \<open>\<^verbatim>\<open>not v\<close> for an attribute value, and \<^verbatim>\<open>" ".join(v)\<close>.\<close>

definition attr_falsy :: "attr_value option \<Rightarrow> bool" where
  "attr_falsy v = (case v of None \<Rightarrow> True | Some (AStr s) \<Rightarrow> s = [] | Some (AToks ts) \<Rightarrow> ts = [])"

definition join_attr :: "attr_value \<Rightarrow> string" where
  "join_attr v = (case v of AStr s \<Rightarrow> join '' '' (map (\<lambda>c. [c]) s) | AToks ts \<Rightarrow> join '' '' ts)"

definition blank_without_noopener :: "element \<Rightarrow> bool" where
  "blank_without_noopener a =
     (el_get a ''target'' = Some (AStr ''_blank'') \<and>
      (attr_falsy (el_get a ''rel'') \<or>
       \<not> contains (join_attr (case el_get a ''rel'' of Some v \<Rightarrow> v | None \<Rightarrow> AToks [])) ''noopener''))"

text \<open>
  \<^verbatim>\<open>soup.find_all("a", href=True)\<close> keeps, in document order, the \<^verbatim>\<open>a\<close>
  elements that have an \<^verbatim>\<open>href\<close>.
\<close>

definition find_all_a_href :: "element list \<Rightarrow> element list" where
  "find_all_a_href els = filter (\<lambda>el. el_name el = ''a'' \<and> el_get el ''href'' \<noteq> None) els"

text \<open>
  The body of the loop over the anchors; \<^verbatim>\<open>href.strip()\<close> needs the string that an
  \<^verbatim>\<open>href\<close> is.
\<close>

definition anchor_step ::
  "(string \<Rightarrow> string \<Rightarrow> 'e + string) \<Rightarrow> string option \<Rightarrow> element \<Rightarrow> anchor_buckets \<Rightarrow> py_error + anchor_buckets" where
  "anchor_step urljoin site_url a ev =
     (case el_get a ''href'' of
        None \<Rightarrow> Inl KeyError
      | Some (AToks ts) \<Rightarrow> Inl AttributeError
      | Some (AStr href) \<Rightarrow>
          let ev1 = (if startswith (py_lower (py_strip href)) ''javascript:''
                     then ev\<lparr>javascript_href_links := javascript_href_links ev @
                            [\<lparr>jh_outer_html = outer a, jh_href = href\<rparr>]\<rparr>
                     else ev);
              ev2 = (if blank_without_noopener a
                     then ev1\<lparr>target_blank_without_noopener := target_blank_without_noopener ev1 @
                            [\<lparr>tb_outer_html = outer a, tb_href = href,
                              tb_href_abs = abs_url urljoin site_url (Some href),
                              tb_target = el_get a ''target'', tb_rel = el_get a ''rel''\<rparr>]\<rparr>
                     else ev1)
          in Inr (ev2\<lparr>links := links ev2 @
                   [\<lparr>ln_outer_html = outer a, ln_href = href,
                     ln_href_abs = abs_url urljoin site_url (Some href)\<rparr>]\<rparr>))"

fun anchor_loop ::
  "(string \<Rightarrow> string \<Rightarrow> 'e + string) \<Rightarrow> string option \<Rightarrow> element list \<Rightarrow> anchor_buckets \<Rightarrow> py_error + anchor_buckets" where
  "anchor_loop urljoin site_url [] ev = Inr ev"
| "anchor_loop urljoin site_url (a # as) ev =
     ebind (anchor_step urljoin site_url a ev) (anchor_loop urljoin site_url as)"

definition analyze_anchors ::
  "(string \<Rightarrow> string \<Rightarrow> 'e + string) \<Rightarrow> string option \<Rightarrow> element list \<Rightarrow> py_error + anchor_buckets" where
  "analyze_anchors urljoin site_url els =
     anchor_loop urljoin site_url (find_all_a_href els)
       \<lparr>javascript_href_links = [], target_blank_without_noopener = [], links = []\<rparr>"

text \<open>The record that the loop appends to the target-blank bucket for an anchor.\<close>

definition tb_record :: "(string \<Rightarrow> string \<Rightarrow> 'e + string) \<Rightarrow> string option \<Rightarrow> element \<Rightarrow> target_blank_evidence" where
  "tb_record urljoin site_url a =
     (let href = (case el_get a ''href'' of Some (AStr h) \<Rightarrow> h | _ \<Rightarrow> [])
      in \<lparr>tb_outer_html = outer a, tb_href = href, tb_href_abs = abs_url urljoin site_url (Some href),
          tb_target = el_get a ''target'', tb_rel = el_get a ''rel''\<rparr>)"

text \<open>\<^verbatim>\<open>str.split()\<close>: the maximal runs of characters that are not whitespace.\<close>

fun split_from :: "string \<Rightarrow> string \<Rightarrow> string list" where
  "split_from cur [] = (if cur = [] then [] else [cur])"
| "split_from cur (c # cs) =
     (if py_isspace c then (if cur = [] then split_from [] cs else cur # split_from [] cs)
      else split_from (cur @ [c]) cs)"

definition py_split :: "string \<Rightarrow> string list" where
  "py_split s = split_from [] s"

text \<open>
  The claimed test in the spec's words: the target is \<^verbatim>\<open>_blank\<close>, and there is
  no \<^verbatim>\<open>rel\<close> or no token of the whitespace-joined \<^verbatim>\<open>rel\<close> equals
  \<^verbatim>\<open>noopener\<close>.
\<close>

definition spec_blank_without_noopener :: "element \<Rightarrow> bool" where
  "spec_blank_without_noopener a =
     (el_get a ''target'' = Some (AStr ''_blank'') \<and>
      (case el_get a ''rel'' of
         None \<Rightarrow> True
       | Some v \<Rightarrow> ''noopener'' \<notin> set (py_split (join_attr v))))"

section \<open>The JS extractor\<close>

definition sq :: char where "sq = CHR 0x27"

definition JS_PATTERNS :: "(string \<times> string) list" where
  "JS_PATTERNS = [
    ([bsl] @ ''beval'' @ [bsl] @ ''s*'' @ [bsl] @ ''('', ''use_of_eval''),
    ([bsl] @ ''bnew'' @ [bsl] @ ''s+Function'' @ [bsl] @ ''s*'' @ [bsl] @ ''('', ''new_Function''),
    ([bsl] @ ''bset(?:Timeout|Interval)'' @ [bsl] @ ''s*'' @ [bsl] @ ''('' @ [bsl] @ ''s*(['' @ [sq] @ [bsl] @ [dq] @ ''])'', ''setTimeout_string_code''),
    ([bsl] @ ''.innerHTML'' @ [bsl] @ ''s*='', ''innerHTML_assignment''),
    ([bsl] @ ''.outerHTML'' @ [bsl] @ ''s*='', ''outerHTML_assignment''),
    ([bsl] @ ''.insertAdjacentHTML'' @ [bsl] @ ''s*'' @ [bsl] @ ''('', ''insertAdjacentHTML''),
    ([bsl] @ ''bdocument'' @ [bsl] @ ''.write'' @ [bsl] @ ''s*'' @ [bsl] @ ''('', ''document_write''),
    ([bsl] @ ''bdocument'' @ [bsl] @ ''.cookie'' @ [bsl] @ ''b'', ''document_cookie_access''),
    ([bsl] @ ''blocalStorage'' @ [bsl] @ ''.(?:setItem|getItem|removeItem)'' @ [bsl] @ ''s*'' @ [bsl] @ ''('', ''localStorage_usage''),
    ([bsl] @ ''bsessionStorage'' @ [bsl] @ ''.(?:setItem|getItem|removeItem)'' @ [bsl] @ ''s*'' @ [bsl] @ ''('', ''sessionStorage_usage''),
    ([bsl] @ ''bdangerouslySetInnerHTML'' @ [bsl] @ ''b'', ''react_dangerouslySetInnerHTML''),
    ([bsl] @ ''bfetch'' @ [bsl] @ ''s*'' @ [bsl] @ ''('' @ [bsl] @ ''s*['' @ [sq] @ [bsl] @ [dq] @ '']([^'' @ [sq] @ [bsl] @ [dq] @ '']+)'', ''fetch_call''),
    ([bsl] @ ''bXMLHttpRequest'' @ [bsl] @ ''s*'' @ [bsl] @ ''('', ''xhr_usage''),
    ([bsl] @ ''.open'' @ [bsl] @ ''s*'' @ [bsl] @ ''('' @ [bsl] @ ''s*['' @ [sq] @ [bsl] @ [dq] @ ''](GET|POST|PUT|DELETE|PATCH)['' @ [sq] @ [bsl] @ [dq] @ '']'' @ [bsl] @ ''s*,'' @ [bsl] @ ''s*['' @ [sq] @ [bsl] @ [dq] @ '']([^'' @ [sq] @ [bsl] @ [dq] @ '']+)'', ''xhr_open''),
    ([bsl] @ ''bURLSearchParams'' @ [bsl] @ ''s*'' @ [bsl] @ ''('', ''urlsearchparams_usage''),
    ([bsl] @ ''blocation'' @ [bsl] @ ''.(?:hash|search|href)'' @ [bsl] @ ''b'', ''location_usage'')]"

text \<open>
  \<^verbatim>\<open>str.splitlines()\<close>: a line ends at a line feed, a carriage return (with the line
  feed that follows it), a vertical tab, a form feed, a file, group or record separator
  or a next-line character; the text after the last boundary is a line when it is not
  empty.
\<close>

definition is_linebreak :: "char \<Rightarrow> bool" where
  "is_linebreak c = (c = nl \<or> c = CHR 0x0D \<or> c = CHR 0x0B \<or> c = CHR 0x0C \<or> c = CHR 0x1C \<or>
     c = CHR 0x1D \<or> c = CHR 0x1E \<or> c = CHR 0x85)"

fun splitlines_from :: "string \<Rightarrow> string \<Rightarrow> string list" where
  "splitlines_from cur [] = (if cur = [] then [] else [cur])"
| "splitlines_from cur (c # cs) =
     (if c = CHR 0x0D then
        (case cs of
           [] \<Rightarrow> [cur]
         | d # ds \<Rightarrow> if d = nl then cur # splitlines_from [] ds else cur # splitlines_from [] (d # ds))
      else if is_linebreak c then cur # splitlines_from [] cs
      else splitlines_from (cur @ [c]) cs)"

definition splitlines :: "string \<Rightarrow> string list" where
  "splitlines s = splitlines_from [] s"

text \<open>
  The body of the inner loop for a match that starts at offset \<open>start\<close>:
  \<^verbatim>\<open>line_index = js_text.count("\n", 0, m.start())\<close>, and the context runs over
  \<^verbatim>\<open>range(max(0, line_no - 1), min(len(lines), line_no + 2))\<close>.
\<close>

definition line_no_at :: "string \<Rightarrow> nat \<Rightarrow> nat" where
  "line_no_at js_text start = count_list (take start js_text) nl + 1"

definition context_at :: "string list \<Rightarrow> nat \<Rightarrow> (nat \<times> string) list" where
  "context_at lines line_no =
     map (\<lambda>ln. (ln + 1, lines ! ln)) [max 0 (line_no - 1) ..< min (length lines) (line_no + 2)]"

definition mk_evidence :: "string list \<Rightarrow> string \<Rightarrow> string \<Rightarrow> string \<times> string \<Rightarrow> nat \<Rightarrow> js_hit" where
  "mk_evidence lines js_text filename detector start =
     \<lparr>hit_pattern = snd detector, hit_regex = fst detector, hit_filename = filename,
      hit_line_no = line_no_at js_text start,
      hit_context = context_at lines (line_no_at js_text start)\<rparr>"

text \<open>
  \<^verbatim>\<open>re.finditer(pattern, js_text, flags=re.IGNORECASE)\<close> is the standard library's: the
  parameter \<open>finditer\<close> gives the start offsets of the matches in the order the
  iterator yields them. The two loops append to \<^verbatim>\<open>evidences\<close>.
\<close>

fun match_loop :: "string list \<Rightarrow> string \<Rightarrow> string \<Rightarrow> string \<times> string \<Rightarrow> nat list \<Rightarrow> js_hit list \<Rightarrow> js_hit list" where
  "match_loop lines js_text filename detector [] evidences = evidences"
| "match_loop lines js_text filename detector (m # ms) evidences =
     match_loop lines js_text filename detector ms
       (evidences @ [mk_evidence lines js_text filename detector m])"

fun pattern_loop ::
  "(string \<Rightarrow> string \<Rightarrow> nat list) \<Rightarrow> string list \<Rightarrow> string \<Rightarrow> string \<Rightarrow> (string \<times> string) list \<Rightarrow> js_hit list \<Rightarrow> js_hit list" where
  "pattern_loop finditer lines js_text filename [] evidences = evidences"
| "pattern_loop finditer lines js_text filename (d # ds) evidences =
     pattern_loop finditer lines js_text filename ds
       (match_loop lines js_text filename d (finditer (fst d) js_text) evidences)"

text \<open>The \<^verbatim>\<open>evidences\<close> of \<^verbatim>\<open>analyze_js\<close>.\<close>

definition analyze_js :: "(string \<Rightarrow> string \<Rightarrow> nat list) \<Rightarrow> string \<Rightarrow> string \<Rightarrow> js_hit list" where
  "analyze_js finditer js_text filename =
     pattern_loop finditer (splitlines js_text) js_text filename JS_PATTERNS []"

text \<open>
  A matcher to instantiate the parameter at concrete inputs. It is not the library's
  \<^verbatim>\<open>re.finditer\<close>, only a function that gives the offsets of the library on the
  texts used below: for the first detector the offsets at which the text continues with
  \<^verbatim>\<open>eval(\<close>, for the last the offsets at which it continues with
  \<^verbatim>\<open>location.href\<close>, and no match for the other detectors.
\<close>

definition occurrences :: "string \<Rightarrow> string \<Rightarrow> nat list" where
  "occurrences word text = filter (\<lambda>i. startswith (drop i text) word) [0 ..< length text]"

definition sample_finditer :: "string \<Rightarrow> string \<Rightarrow> nat list" where
  "sample_finditer pattern text =
     (if pattern = fst (JS_PATTERNS ! 0) then occurrences ''eval('' text
      else if pattern = fst (JS_PATTERNS ! 15) then occurrences ''location.href'' text
      else [])"

section \<open>The assembled payload and what compaction may change\<close>

text \<open>
  The layout that \<^verbatim>\<open>build_messages\<close> assembles, as far as the compactor reads it:
  a dict whose \<^verbatim>\<open>javascript\<close> is a dict with a list \<^verbatim>\<open>files\<close> of dicts, each
  with a list \<^verbatim>\<open>evidences\<close>, and whose \<^verbatim>\<open>html\<close> is a dict with a dict
  \<^verbatim>\<open>highlights\<close>. Everything else in the payload is arbitrary.
\<close>

definition file_ok :: "json \<Rightarrow> bool" where
  "file_ok f =
     (case f of
        JDict kvs \<Rightarrow> (case map_of kvs ''evidences'' of Some (JList ev) \<Rightarrow> True | _ \<Rightarrow> False)
      | _ \<Rightarrow> False)"

definition assembled :: "json \<Rightarrow> bool" where
  "assembled p =
     (case p of
        JDict kvs \<Rightarrow>
          (case map_of kvs ''javascript'' of
             Some (JDict j) \<Rightarrow>
               (case map_of j ''files'' of Some (JList fs) \<Rightarrow> list_all file_ok fs | _ \<Rightarrow> False)
           | _ \<Rightarrow> False) \<and>
          (case map_of kvs ''html'' of
             Some (JDict h) \<Rightarrow>
               (case map_of h ''highlights'' of Some (JDict hh) \<Rightarrow> True | _ \<Rightarrow> False)
           | _ \<Rightarrow> False)
      | _ \<Rightarrow> False)"

text \<open>Positions in a payload: a path of dict keys and list indices.\<close>

datatype sel = Key string | Idx nat

fun child :: "json \<Rightarrow> sel \<Rightarrow> json option" where
  "child (JDict kvs) (Key k) = map_of kvs k"
| "child (JList xs) (Idx i) = (if i < length xs then Some (xs ! i) else None)"
| "child _ _ = None"

fun lookup :: "sel list \<Rightarrow> json \<Rightarrow> json option" where
  "lookup [] v = Some v"
| "lookup (s # p) v = (case child v s of None \<Rightarrow> None | Some c \<Rightarrow> lookup p c)"

definition is_str :: "json \<Rightarrow> bool" where
  "is_str v = (case v of JStr s \<Rightarrow> True | _ \<Rightarrow> False)"

text \<open>
  \<open>compacted a b\<close>: \<open>b\<close> is \<open>a\<close> after whole items were dropped from the end of
  lists and strings stored in dicts under keys other than \<^verbatim>\<open>outer_html\<close> were
  rewritten. Nothing else differs: a string under \<^verbatim>\<open>outer_html\<close>, a string in a
  list, a number, a boolean and the keys of every dict are the same in both.
\<close>

abbreviation field_rel :: "(json \<Rightarrow> json \<Rightarrow> bool) \<Rightarrow> string \<times> json \<Rightarrow> string \<times> json \<Rightarrow> bool" where
  "field_rel R a b \<equiv>
     fst a = fst b \<and>
     (R (snd a) (snd b) \<or> (fst a \<noteq> ''outer_html'' \<and> is_str (snd a) \<and> is_str (snd b)))"

inductive compacted :: "json \<Rightarrow> json \<Rightarrow> bool" where
  same: "compacted v v"
| items: "list_all2 compacted (take (length ys) xs) ys \<Longrightarrow> compacted (JList xs) (JList ys)"
| fields: "list_all2 (field_rel compacted) kvs kvs' \<Longrightarrow> compacted (JDict kvs) (JDict kvs')"

text \<open>
  The loop body on an assembled payload, where none of its reads fails: the parts it
  reads, the writes, and the four steps in their order.
\<close>

definition files_of :: "json \<Rightarrow> json list" where
  "files_of cur = (case get_files cur of Inr (JList fs) \<Rightarrow> fs | _ \<Rightarrow> [])"

definition buckets_of :: "json \<Rightarrow> (string \<times> json) list" where
  "buckets_of cur = (case get_highlights cur of Inr (JDict kvs) \<Rightarrow> kvs | _ \<Rightarrow> [])"

definition with_files :: "json \<Rightarrow> json list \<Rightarrow> json" where
  "with_files cur fs = (case set_files cur (JList fs) of Inr c \<Rightarrow> c | Inl e \<Rightarrow> cur)"

definition with_buckets :: "json \<Rightarrow> (string \<times> json) list \<Rightarrow> json" where
  "with_buckets cur kvs = (case set_highlights cur (JDict kvs) of Inr c \<Rightarrow> c | Inl e \<Rightarrow> cur)"

definition cut_file :: "limits \<Rightarrow> json \<Rightarrow> json" where
  "cut_file cfg f = (case limit_file cfg f of Inr r \<Rightarrow> fst r | Inl e \<Rightarrow> f)"

definition file_over :: "limits \<Rightarrow> json \<Rightarrow> bool" where
  "file_over cfg f = (case limit_file cfg f of Inr r \<Rightarrow> snd r | Inl e \<Rightarrow> False)"

definition pass :: "limits \<Rightarrow> json \<Rightarrow> json" where
  "pass cfg p =
     (if int (length (files_of p)) > MAX_JS_FILES cfg
        then with_files p (slice_to (MAX_JS_FILES cfg) (files_of p))
      else if list_ex (file_over cfg) (files_of p)
        then with_files p (map (cut_file cfg) (files_of p))
      else if list_ex (\<lambda>kv. bucket_over cfg (snd kv)) (buckets_of p)
        then with_buckets p (map (limit_bucket cfg) (buckets_of p))
      else truncate cfg p)"

text \<open>What the string walk does to the value stored under a key of a dict.\<close>

definition trunc_val :: "limits \<Rightarrow> string \<Rightarrow> json \<Rightarrow> json" where
  "trunc_val cfg k v =
     (if k = ''outer_html'' then v
      else (case v of
              JStr s \<Rightarrow>
                if int (length s) > MAX_STR_FIELD cfg
                then JStr (truncate_text (Some s) (MAX_STR_FIELD cfg)) else v
            | JList xs \<Rightarrow> truncate cfg v
            | JDict d \<Rightarrow> truncate cfg v
            | _ \<Rightarrow> v))"

text \<open>
  The measure in parts: the characters that \<^verbatim>\<open>json.dumps\<close> writes for a string
  between its quotes, and for an entry of a dict.
\<close>

definition esc_len :: "string \<Rightarrow> nat" where
  "esc_len s = length (concat (map escape_char s))"

definition entry_size :: "string \<times> json \<Rightarrow> nat" where
  "entry_size kv = length (dumps_str (fst kv)) + 2 + size_obj (snd kv)"

text \<open>
  The conditions under which the three structural steps of the loop body do not apply,
  and the limits on counts being non-negative.
\<close>

definition files_within :: "limits \<Rightarrow> json \<Rightarrow> bool" where
  "files_within cfg p = (int (length (files_of p)) \<le> MAX_JS_FILES cfg)"

definition evidences_within :: "limits \<Rightarrow> json \<Rightarrow> bool" where
  "evidences_within cfg p = (\<not> list_ex (file_over cfg) (files_of p))"

definition buckets_within :: "limits \<Rightarrow> json \<Rightarrow> bool" where
  "buckets_within cfg p = (\<not> list_ex (\<lambda>kv. bucket_over cfg (snd kv)) (buckets_of p))"

definition counts_nonneg :: "limits \<Rightarrow> bool" where
  "counts_nonneg cfg = (0 \<le> MAX_JS_FILES cfg \<and> 0 \<le> MAX_JS_EVIDENCE_PER_FILE cfg \<and>
     0 \<le> MAX_HTML_EVIDENCE_PER_BUCKET cfg)"

text \<open>
  A payload is reduced to the limits when none of the four steps of the loop body has
  anything left to do: the files, the evidences of every file and the records of every
  bucket are within their maxima, and the string walk changes nothing.
\<close>

definition reduced :: "limits \<Rightarrow> json \<Rightarrow> bool" where
  "reduced cfg p = (files_within cfg p \<and> evidences_within cfg p \<and> buckets_within cfg p \<and>
     truncate cfg p = p)"

text \<open>Applying the compactor to its own output.\<close>

definition shrink_twice :: "limits \<Rightarrow> json \<Rightarrow> int \<Rightarrow> py_error + json" where
  "shrink_twice cfg payload limit =
     ebind (shrink_payload cfg payload limit) (\<lambda>out. shrink_payload cfg out limit)"

section \<open>A small payload and small limits, for concrete instances\<close>

definition small_limits :: limits where
  "small_limits = \<lparr> MAX_HTML_EVIDENCE_PER_BUCKET = 1, MAX_JS_FILES = 1,
     MAX_JS_EVIDENCE_PER_FILE = 1, MAX_STR_FIELD = 60 \<rparr>"

definition long_form :: string where
  "long_form = ''<form action=/search method=post><input name=q><input name=lang><button>Go</button></form>''"

definition long_action :: string where
  "long_action = ''/search?session=0123456789abcdef0123456789abcdef&return=/home/index''"

definition example_payload :: json where
  "example_payload = JDict [
     (''site_url'', JStr ''https://a.test/page''),
     (''html'', JDict [(''highlights'', JDict [
        (''meta'', JDict [(''csp_meta_present'', JBool False), (''csp_meta_tag'', JNull)]),
        (''forms'', JList [
           JDict [(''outer_html'', JStr long_form), (''action'', JStr long_action), (''method'', JStr ''POST'')],
           JDict [(''outer_html'', JStr ''<form></form>''), (''action'', JNull), (''method'', JStr ''GET'')]]),
        (''iframes'', JList [])])]),
     (''javascript'', JDict [
        (''files'', JList [
           JDict [(''filename'', JStr ''a.js''),
                  (''evidences'', JList [
                     JDict [(''pattern'', JStr ''use_of_eval''), (''line_no'', JInt 2)],
                     JDict [(''pattern'', JStr ''document_write''), (''line_no'', JInt 7)]]),
                  (''endpoints'', JList [])],
           JDict [(''filename'', JStr ''b.js''), (''evidences'', JList []), (''endpoints'', JList [])]]),
        (''summary'', JDict [(''total_files'', JInt 2), (''total_hits'', JInt 2)])])]"

text \<open>The same payload after the compactor ran with the small limits and the budget 0.\<close>

definition example_compacted :: json where
  "example_compacted = JDict [
     (''site_url'', JStr ''https://a.test/page''),
     (''html'', JDict [(''highlights'', JDict [
        (''meta'', JDict [(''csp_meta_present'', JBool False), (''csp_meta_tag'', JNull)]),
        (''forms'', JList [
           JDict [(''outer_html'', JStr long_form),
                  (''action'', JStr (take 36 long_action @ [nl] @ ''...'' @ [nl] @ ''return=/home/index'')),
                  (''method'', JStr ''POST'')]]),
        (''iframes'', JList [])])]),
     (''javascript'', JDict [
        (''files'', JList [
           JDict [(''filename'', JStr ''a.js''),
                  (''evidences'', JList [
                     JDict [(''pattern'', JStr ''use_of_eval''), (''line_no'', JInt 2)]]),
                  (''endpoints'', JList [])]]),
        (''summary'', JDict [(''total_files'', JInt 2), (''total_hits'', JInt 2)])])]"

text \<open>The smallest assembled payload: no file and no bucket.\<close>

definition empty_payload :: json where
  "empty_payload = JDict [
     (''html'', JDict [(''highlights'', JDict [])]),
     (''javascript'', JDict [(''files'', JList [])])]"

text \<open>
  Limits with a small maximum for strings, and a payload with one string field. With
  the maximum 50 the elided form of a string of 51 characters has 30 + 5 + 15
  characters and is one character longer when serialized; with the maximum 3 the tail
  \<^verbatim>\<open>s[-0:]\<close> is the whole string, so every pass makes the string longer.
\<close>

definition limits_str50 :: limits where
  "limits_str50 = \<lparr> MAX_HTML_EVIDENCE_PER_BUCKET = 50, MAX_JS_FILES = 50,
     MAX_JS_EVIDENCE_PER_FILE = 25, MAX_STR_FIELD = 50 \<rparr>"

definition limits_str3 :: limits where
  "limits_str3 = \<lparr> MAX_HTML_EVIDENCE_PER_BUCKET = 50, MAX_JS_FILES = 50,
     MAX_JS_EVIDENCE_PER_FILE = 25, MAX_STR_FIELD = 3 \<rparr>"

definition url_payload :: "string \<Rightarrow> json" where
  "url_payload u = JDict [
     (''site_url'', JStr u),
     (''html'', JDict [(''highlights'', JDict [])]),
     (''javascript'', JDict [(''files'', JList [])])]"

definition url51 :: string where
  "url51 = ''https://a.test/search?q=0123456789&lang=en&page=123''"

text \<open>
  Limits with a negative maximum for the records of a bucket, under which every pass
  drops the last record of every bucket, and a payload with one bucket of \<open>n\<close>
  records.
\<close>

definition limits_bucket_neg :: limits where
  "limits_bucket_neg = \<lparr> MAX_HTML_EVIDENCE_PER_BUCKET = - 1, MAX_JS_FILES = 50,
     MAX_JS_EVIDENCE_PER_FILE = 25, MAX_STR_FIELD = 4000 \<rparr>"

definition bucket_payload :: "nat \<Rightarrow> json" where
  "bucket_payload n = JDict [
     (''html'', JDict [(''highlights'', JDict [(''iframes'', JList (replicate n JNull))])]),
     (''javascript'', JDict [(''files'', JList [])])]"

text \<open>The long \<^verbatim>\<open>action\<close> after its elision with the maximum 60 for strings.\<close>

definition long_action_elided :: string where
  "long_action_elided = take 36 long_action @ [nl] @ ''...'' @ [nl] @ ''return=/home/index''"

section \<open>The loop body on an assembled payload\<close>

lemma ebind_Inr [simp]: "ebind (Inr v) f = f v"
  by (simp add: ebind_def)

lemma ebind_Inl [simp]: "ebind (Inl e) f = Inl e"
  by (simp add: ebind_def)

lemma ebind_eq_Inr: "ebind m f = Inr y \<longleftrightarrow> (\<exists>v. m = Inr v \<and> f v = Inr y)"
  by (cases m) simp_all

lemma assembledE:
  assumes "assembled p"
  obtains kvs j fs h hh where "p = JDict kvs"
    and "map_of kvs ''javascript'' = Some (JDict j)"
    and "map_of j ''files'' = Some (JList fs)"
    and "list_all file_ok fs"
    and "map_of kvs ''html'' = Some (JDict h)"
    and "map_of h ''highlights'' = Some (JDict hh)"
proof -
  have "\<exists>kvs j fs h hh. p = JDict kvs \<and> map_of kvs ''javascript'' = Some (JDict j) \<and>
      map_of j ''files'' = Some (JList fs) \<and> list_all file_ok fs \<and>
      map_of kvs ''html'' = Some (JDict h) \<and> map_of h ''highlights'' = Some (JDict hh)"
    using assms unfolding assembled_def
    by (simp split: json.split_asm option.split_asm)
  then show ?thesis using that by blast
qed

lemma assembledI:
  assumes "map_of kvs ''javascript'' = Some (JDict j)"
    and "map_of j ''files'' = Some (JList fs)"
    and "list_all file_ok fs"
    and "map_of kvs ''html'' = Some (JDict h)"
    and "map_of h ''highlights'' = Some (JDict hh)"
  shows "assembled (JDict kvs)"
  using assms by (simp add: assembled_def)

lemma file_okE:
  assumes "file_ok f"
  obtains kv ev where "f = JDict kv" and "map_of kv ''evidences'' = Some (JList ev)"
proof -
  have "\<exists>kv ev. f = JDict kv \<and> map_of kv ''evidences'' = Some (JList ev)"
    using assms unfolding file_ok_def
    by (simp split: json.split_asm option.split_asm)
  then show ?thesis using that by blast
qed

lemma file_okI: "map_of kv ''evidences'' = Some (JList ev) \<Longrightarrow> file_ok (JDict kv)"
  by (simp add: file_ok_def)

lemma get_files_eq:
  assumes "map_of kvs ''javascript'' = Some (JDict j)" and "map_of j ''files'' = Some (JList fs)"
  shows "get_files (JDict kvs) = Inr (JList fs)" and "files_of (JDict kvs) = fs"
  using assms by (simp_all add: get_files_def files_of_def)

lemma get_highlights_eq:
  assumes "map_of kvs ''html'' = Some (JDict h)" and "map_of h ''highlights'' = Some (JDict hh)"
  shows "get_highlights (JDict kvs) = Inr (JDict hh)" and "buckets_of (JDict kvs) = hh"
  using assms by (simp_all add: get_highlights_def buckets_of_def)

lemma set_files_eq:
  assumes "map_of kvs ''javascript'' = Some (JDict j)"
  shows "set_files (JDict kvs) v =
           Inr (JDict (AList.update ''javascript'' (JDict (AList.update ''files'' v j)) kvs))"
    and "with_files (JDict kvs) fs =
           JDict (AList.update ''javascript'' (JDict (AList.update ''files'' (JList fs) j)) kvs)"
  using assms by (simp_all add: set_files_def with_files_def)

lemma set_highlights_eq:
  assumes "map_of kvs ''html'' = Some (JDict h)"
  shows "set_highlights (JDict kvs) v =
           Inr (JDict (AList.update ''html'' (JDict (AList.update ''highlights'' v h)) kvs))"
    and "with_buckets (JDict kvs) hh =
           JDict (AList.update ''html'' (JDict (AList.update ''highlights'' (JDict hh) h)) kvs)"
  using assms by (simp_all add: set_highlights_def with_buckets_def)

lemma assembled_with_files:
  assumes "assembled p" and "list_all file_ok fs'"
  shows "assembled (with_files p fs')" and "files_of (with_files p fs') = fs'"
    and "buckets_of (with_files p fs') = buckets_of p"
proof -
  from assms(1) obtain kvs j fs h hh where p: "p = JDict kvs"
    and j: "map_of kvs ''javascript'' = Some (JDict j)"
    and f: "map_of j ''files'' = Some (JList fs)"
    and h: "map_of kvs ''html'' = Some (JDict h)"
    and hh: "map_of h ''highlights'' = Some (JDict hh)"
    by (rule assembledE)
  let ?kvs' = "AList.update ''javascript'' (JDict (AList.update ''files'' (JList fs') j)) kvs"
  have w: "with_files p fs' = JDict ?kvs'"
    unfolding p by (rule set_files_eq(2)[OF j])
  have j': "map_of ?kvs' ''javascript'' = Some (JDict (AList.update ''files'' (JList fs') j))"
    by (simp add: update_conv')
  have f': "map_of (AList.update ''files'' (JList fs') j) ''files'' = Some (JList fs')"
    by (simp add: update_conv')
  have h': "map_of ?kvs' ''html'' = Some (JDict h)"
    using h by (simp add: update_conv')
  show "assembled (with_files p fs')"
    unfolding w by (rule assembledI[OF j' f' assms(2) h' hh])
  show "files_of (with_files p fs') = fs'"
    unfolding w by (rule get_files_eq(2)[OF j' f'])
  have "buckets_of (JDict ?kvs') = hh" by (rule get_highlights_eq(2)[OF h' hh])
  moreover have "buckets_of (JDict kvs) = hh" by (rule get_highlights_eq(2)[OF h hh])
  ultimately show "buckets_of (with_files p fs') = buckets_of p"
    unfolding w unfolding p by simp
qed

lemma assembled_with_buckets:
  assumes "assembled p"
  shows "assembled (with_buckets p hh')" and "buckets_of (with_buckets p hh') = hh'"
    and "files_of (with_buckets p hh') = files_of p"
proof -
  from assms(1) obtain kvs j fs h hh where p: "p = JDict kvs"
    and j: "map_of kvs ''javascript'' = Some (JDict j)"
    and f: "map_of j ''files'' = Some (JList fs)"
    and ok: "list_all file_ok fs"
    and h: "map_of kvs ''html'' = Some (JDict h)"
    and hh: "map_of h ''highlights'' = Some (JDict hh)"
    by (rule assembledE)
  let ?kvs' = "AList.update ''html'' (JDict (AList.update ''highlights'' (JDict hh') h)) kvs"
  have w: "with_buckets p hh' = JDict ?kvs'"
    unfolding p by (rule set_highlights_eq(2)[OF h])
  have h': "map_of ?kvs' ''html'' = Some (JDict (AList.update ''highlights'' (JDict hh') h))"
    by (simp add: update_conv')
  have b': "map_of (AList.update ''highlights'' (JDict hh') h) ''highlights'' = Some (JDict hh')"
    by (simp add: update_conv')
  have j': "map_of ?kvs' ''javascript'' = Some (JDict j)"
    using j by (simp add: update_conv')
  show "assembled (with_buckets p hh')"
    unfolding w by (rule assembledI[OF j' f ok h' b'])
  show "buckets_of (with_buckets p hh') = hh'"
    unfolding w by (rule get_highlights_eq(2)[OF h' b'])
  have "files_of (JDict ?kvs') = fs" by (rule get_files_eq(2)[OF j' f])
  moreover have "files_of (JDict kvs) = fs" by (rule get_files_eq(2)[OF j f])
  ultimately show "files_of (with_buckets p hh') = files_of p"
    unfolding w unfolding p by simp
qed

lemma limit_file_ok:
  assumes "map_of kv ''evidences'' = Some (JList ev)"
  shows "limit_file cfg (JDict kv) =
           Inr (if int (length ev) > MAX_JS_EVIDENCE_PER_FILE cfg
                then (JDict (AList.update ''evidences'' (JList (slice_to (MAX_JS_EVIDENCE_PER_FILE cfg) ev)) kv), True)
                else (JDict kv, False))"
  using assms by (simp add: limit_file_def)

lemma limit_file_cut:
  assumes "file_ok f"
  shows "limit_file cfg f = Inr (cut_file cfg f, file_over cfg f)"
proof -
  from assms obtain kv ev where "f = JDict kv" "map_of kv ''evidences'' = Some (JList ev)"
    by (rule file_okE)
  then show ?thesis
    by (simp add: limit_file_ok cut_file_def file_over_def)
qed

lemma cut_file_eq:
  assumes "map_of kv ''evidences'' = Some (JList ev)"
  shows "cut_file cfg (JDict kv) =
           (if int (length ev) > MAX_JS_EVIDENCE_PER_FILE cfg
            then JDict (AList.update ''evidences'' (JList (slice_to (MAX_JS_EVIDENCE_PER_FILE cfg) ev)) kv)
            else JDict kv)"
    and "file_over cfg (JDict kv) \<longleftrightarrow> int (length ev) > MAX_JS_EVIDENCE_PER_FILE cfg"
  using assms by (simp_all add: limit_file_ok cut_file_def file_over_def)

lemma file_ok_cut: "file_ok f \<Longrightarrow> file_ok (cut_file cfg f)"
  by (erule file_okE) (auto simp: cut_file_eq update_conv' intro!: file_okI)

lemma limit_files_cut:
  "list_all file_ok fs \<Longrightarrow>
   limit_files cfg fs = Inr (map (cut_file cfg) fs, list_ex (file_over cfg) fs)"
  by (induction fs) (simp_all add: limit_file_cut)

lemma file_ok_slice: "list_all file_ok fs \<Longrightarrow> list_all file_ok (slice_to n fs)"
  by (auto simp: slice_to_def list_all_iff dest: in_set_takeD)

lemma step_pass:
  assumes "assembled p"
  shows "shrink_step cfg p = Inr (pass cfg p)"
proof -
  from assms obtain kvs j fs h hh where p: "p = JDict kvs"
    and j: "map_of kvs ''javascript'' = Some (JDict j)"
    and f: "map_of j ''files'' = Some (JList fs)"
    and ok: "list_all file_ok fs"
    and h: "map_of kvs ''html'' = Some (JDict h)"
    and hh: "map_of h ''highlights'' = Some (JDict hh)"
    by (rule assembledE)
  note gf = get_files_eq[OF j f] and gh = get_highlights_eq[OF h hh]
    and sf = set_files_eq[OF j] and sh = set_highlights_eq[OF h]
  have ev: "limit_evidences cfg p =
      Inr (if list_ex (file_over cfg) fs then Some (with_files p (map (cut_file cfg) fs)) else None)"
    unfolding p by (simp add: limit_evidences_def gf limit_files_cut[OF ok] sf)
  have hl: "limit_highlights cfg p =
      Inr (if list_ex (\<lambda>kv. bucket_over cfg (snd kv)) hh
           then Some (with_buckets p (map (limit_bucket cfg) hh)) else None)"
    unfolding p by (simp add: limit_highlights_def gh sh)
  show ?thesis
    unfolding shrink_step_def ev hl
    unfolding p by (simp add: gf gh sf pass_def)
qed



lemma truncate_dict:
  "truncate cfg (JDict kvs) = JDict (map (\<lambda>kv. (fst kv, trunc_val cfg (fst kv) (snd kv))) kvs)"
  by (auto simp: trunc_val_def split: json.splits)

declare truncate.simps(1) [simp del]

lemma map_of_map_val:
  "map_of (map (\<lambda>kv. (fst kv, f (fst kv) (snd kv))) kvs) k = map_option (f k) (map_of kvs k)"
  by (induction kvs) auto

lemma trunc_val_node:
  "k \<noteq> ''outer_html'' \<Longrightarrow> trunc_val cfg k (JDict d) = truncate cfg (JDict d)"
  "k \<noteq> ''outer_html'' \<Longrightarrow> trunc_val cfg k (JList xs) = JList (map (truncate cfg) xs)"
  by (simp_all add: trunc_val_def)

lemma file_ok_truncate:
  assumes "file_ok f"
  shows "file_ok (truncate cfg f)"
proof -
  from assms obtain kv ev where f: "f = JDict kv" and e: "map_of kv ''evidences'' = Some (JList ev)"
    by (rule file_okE)
  have "map_of (map (\<lambda>kv. (fst kv, trunc_val cfg (fst kv) (snd kv))) kv) ''evidences'' =
        Some (JList (map (truncate cfg) ev))"
    by (simp add: map_of_map_val e trunc_val_node)
  then show ?thesis
    unfolding f truncate_dict by (rule file_okI)
qed

lemma assembled_truncate:
  assumes "assembled p"
  shows "assembled (truncate cfg p)"
    and "files_of (truncate cfg p) = map (truncate cfg) (files_of p)"
    and "buckets_of (truncate cfg p) =
           map (\<lambda>kv. (fst kv, trunc_val cfg (fst kv) (snd kv))) (buckets_of p)"
proof -
  from assms obtain kvs j fs h hh where p: "p = JDict kvs"
    and j: "map_of kvs ''javascript'' = Some (JDict j)"
    and f: "map_of j ''files'' = Some (JList fs)"
    and ok: "list_all file_ok fs"
    and h: "map_of kvs ''html'' = Some (JDict h)"
    and hh: "map_of h ''highlights'' = Some (JDict hh)"
    by (rule assembledE)
  let ?t = "\<lambda>kv. (fst kv, trunc_val cfg (fst kv) (snd kv))"
  have j': "map_of (map ?t kvs) ''javascript'' = Some (JDict (map ?t j))"
    by (simp add: map_of_map_val j trunc_val_node truncate_dict)
  have f': "map_of (map ?t j) ''files'' = Some (JList (map (truncate cfg) fs))"
    by (simp add: map_of_map_val f trunc_val_node)
  have ok': "list_all file_ok (map (truncate cfg) fs)"
    using ok by (simp add: list_all_iff file_ok_truncate)
  have h': "map_of (map ?t kvs) ''html'' = Some (JDict (map ?t h))"
    by (simp add: map_of_map_val h trunc_val_node truncate_dict)
  have hh': "map_of (map ?t h) ''highlights'' = Some (JDict (map ?t hh))"
    by (simp add: map_of_map_val hh trunc_val_node truncate_dict)
  show "assembled (truncate cfg p)"
    unfolding p truncate_dict by (rule assembledI[OF j' f' ok' h' hh'])
  have "files_of (JDict (map ?t kvs)) = map (truncate cfg) fs"
    by (rule get_files_eq(2)[OF j' f'])
  moreover have "files_of (JDict kvs) = fs" by (rule get_files_eq(2)[OF j f])
  ultimately show "files_of (truncate cfg p) = map (truncate cfg) (files_of p)"
    unfolding p truncate_dict by simp
  have "buckets_of (JDict (map ?t kvs)) = map ?t hh"
    by (rule get_highlights_eq(2)[OF h' hh'])
  moreover have "buckets_of (JDict kvs) = hh" by (rule get_highlights_eq(2)[OF h hh])
  ultimately show "buckets_of (truncate cfg p) = map ?t (buckets_of p)"
    unfolding p truncate_dict by simp
qed

lemma assembled_files_ok: "assembled p \<Longrightarrow> list_all file_ok (files_of p)"
  by (erule assembledE) (simp add: get_files_eq)

lemma assembled_pass:
  assumes "assembled p"
  shows "assembled (pass cfg p)"
proof -
  note ok = assembled_files_ok[OF assms]
  have "list_all file_ok (map (cut_file cfg) (files_of p))"
    using ok by (simp add: list_all_iff file_ok_cut)
  then show ?thesis
    using assms ok
    by (simp add: pass_def assembled_with_files(1) assembled_with_buckets(1)
        assembled_truncate(1) file_ok_slice)
qed

lemma assembled_funpow: "assembled p \<Longrightarrow> assembled ((pass cfg ^^ k) p)"
  by (induction k) (simp_all add: assembled_pass)

lemma iter_step_pass:
  "assembled p \<Longrightarrow> iter_step cfg k p = Inr ((pass cfg ^^ k) p)"
proof (induction k arbitrary: p)
  case 0
  then show ?case by simp
next
  case (Suc k)
  from Suc.prems have "iter_step cfg (Suc k) p = iter_step cfg k (pass cfg p)"
    by (simp add: step_pass)
  also have "\<dots> = Inr ((pass cfg ^^ k) (pass cfg p))"
    using Suc.prems by (intro Suc.IH assembled_pass)
  finally show ?case by (simp add: funpow_swap1)
qed

lemma shrink_loop_pass:
  "assembled p \<Longrightarrow>
   \<exists>k \<le> n. shrink_loop cfg limit n p = Inr ((pass cfg ^^ k) p) \<and>
     (int (size_obj ((pass cfg ^^ k) p)) \<le> limit \<or> k = n) \<and>
     (\<forall>i < k. \<not> int (size_obj ((pass cfg ^^ i) p)) \<le> limit)"
proof (induction n arbitrary: p)
  case 0
  then show ?case by simp
next
  case (Suc n)
  show ?case
  proof (cases "int (size_obj p) \<le> limit")
    case True
    then have "shrink_loop cfg limit (Suc n) p = Inr ((pass cfg ^^ 0) p) \<and>
       (int (size_obj ((pass cfg ^^ 0) p)) \<le> limit \<or> 0 = Suc n) \<and>
       (\<forall>i < 0. \<not> int (size_obj ((pass cfg ^^ i) p)) \<le> limit)"
      by simp
    then show ?thesis by blast
  next
    case False
    from Suc.IH[OF assembled_pass[OF Suc.prems]]
    obtain k where k: "k \<le> n"
      and r: "shrink_loop cfg limit n (pass cfg p) = Inr ((pass cfg ^^ k) (pass cfg p))"
      and s: "int (size_obj ((pass cfg ^^ k) (pass cfg p))) \<le> limit \<or> k = n"
      and a: "\<forall>i < k. \<not> int (size_obj ((pass cfg ^^ i) (pass cfg p))) \<le> limit"
      by blast
    have "shrink_loop cfg limit (Suc n) p = Inr ((pass cfg ^^ Suc k) p)"
      using False r Suc.prems by (simp add: step_pass funpow_swap1)
    moreover have "int (size_obj ((pass cfg ^^ Suc k) p)) \<le> limit \<or> Suc k = Suc n"
      using s by (simp add: funpow_swap1)
    moreover have "\<forall>i < Suc k. \<not> int (size_obj ((pass cfg ^^ i) p)) \<le> limit"
    proof (intro allI impI)
      fix i assume "i < Suc k"
      show "\<not> int (size_obj ((pass cfg ^^ i) p)) \<le> limit"
      proof (cases i)
        case 0
        with False show ?thesis by simp
      next
        case (Suc i')
        with \<open>i < Suc k\<close> a show ?thesis by (simp add: funpow_swap1)
      qed
    qed
    ultimately show ?thesis using k by (metis Suc_le_mono)
  qed
qed

section \<open>What a pass may change\<close>

lemma compacted_str_right: "compacted a (JStr s) \<Longrightarrow> a = JStr s"
  by (erule compacted.cases) simp_all

lemma compacted_str_left: "compacted (JStr s) b \<Longrightarrow> b = JStr s"
  by (erule compacted.cases) simp_all

lemma is_str_compacted_right: "compacted a b \<Longrightarrow> is_str b \<Longrightarrow> is_str a"
  by (cases b) (auto simp: is_str_def dest: compacted_str_right)

lemma is_str_compacted_left: "compacted a b \<Longrightarrow> is_str a \<Longrightarrow> is_str b"
  by (cases a) (auto simp: is_str_def dest: compacted_str_left)

lemma compacted_list_cases:
  assumes "compacted (JList ys) c"
  obtains zs where "c = JList zs" and "list_all2 compacted (take (length zs) ys) zs"
  using assms
proof (cases rule: compacted.cases)
  case same
  have "list_all2 compacted (take (length ys) ys) ys"
    by (simp add: list_all2_conv_all_nth compacted.same)
  with same that show ?thesis by blast
next
  case (items zs)
  with that show ?thesis by blast
qed

lemma compacted_dict_cases:
  assumes "compacted (JDict kvs) c"
  obtains kvs' where "c = JDict kvs'" and "list_all2 (field_rel compacted) kvs kvs'"
  using assms
proof (cases rule: compacted.cases)
  case same
  have "list_all2 (field_rel compacted) kvs kvs"
    by (simp add: list_all2_conv_all_nth compacted.same)
  with same that show ?thesis by blast
next
  case (fields kvs')
  with that show ?thesis by blast
qed

lemma compacted_trans: "compacted a b \<Longrightarrow> compacted b c \<Longrightarrow> compacted a c"
proof (induction arbitrary: c rule: compacted.induct)
  case (same v)
  then show ?case .
next
  case (items ys xs)
  from items.prems obtain zs where c: "c = JList zs"
    and z: "list_all2 compacted (take (length zs) ys) zs"
    by (rule compacted_list_cases)
  from items.IH have ly: "length ys \<le> length xs"
    and ih: "\<And>i. i < length ys \<Longrightarrow> (\<forall>c. compacted (ys ! i) c \<longrightarrow> compacted (xs ! i) c)"
    by (auto simp: list_all2_conv_all_nth)
  from z have lz: "length zs \<le> length ys"
    and zz: "\<And>i. i < length zs \<Longrightarrow> compacted (ys ! i) (zs ! i)"
    by (auto simp: list_all2_conv_all_nth)
  have "list_all2 compacted (take (length zs) xs) zs"
    using ly lz ih zz by (auto simp: list_all2_conv_all_nth)
  then show ?case unfolding c by (rule compacted.items)
next
  case (fields kvs kvs')
  from fields.prems obtain kvs'' where c: "c = JDict kvs''"
    and z: "list_all2 (field_rel compacted) kvs' kvs''"
    by (rule compacted_dict_cases)
  from fields.IH have l1: "length kvs = length kvs'"
    and ih: "\<And>i. i < length kvs \<Longrightarrow> fst (kvs ! i) = fst (kvs' ! i) \<and>
        ((compacted (snd (kvs ! i)) (snd (kvs' ! i)) \<and>
          (\<forall>c. compacted (snd (kvs' ! i)) c \<longrightarrow> compacted (snd (kvs ! i)) c)) \<or>
         (fst (kvs ! i) \<noteq> ''outer_html'' \<and> is_str (snd (kvs ! i)) \<and> is_str (snd (kvs' ! i))))"
    by (auto simp: list_all2_conv_all_nth)
  from z have l2: "length kvs' = length kvs''"
    and zz: "\<And>i. i < length kvs' \<Longrightarrow> field_rel compacted (kvs' ! i) (kvs'' ! i)"
    by (auto simp: list_all2_conv_all_nth)
  have fr: "field_rel compacted (kvs ! i) (kvs'' ! i)" if "i < length kvs" for i
  proof -
    from that l1 have i': "i < length kvs'" by simp
    note a = ih[OF that] and b = zz[OF i']
    from a b have k: "fst (kvs ! i) = fst (kvs'' ! i)" by simp
    from a b have "compacted (snd (kvs ! i)) (snd (kvs'' ! i)) \<or>
        (fst (kvs ! i) \<noteq> ''outer_html'' \<and> is_str (snd (kvs ! i)) \<and> is_str (snd (kvs'' ! i)))"
      by (metis is_str_compacted_left is_str_compacted_right)
    with k show ?thesis by simp
  qed
  have "list_all2 (field_rel compacted) kvs kvs''"
  proof (rule list_all2_all_nthI)
    show "length kvs = length kvs''" using l1 l2 by simp
  next
    fix n assume "n < length kvs"
    then show "field_rel compacted (kvs ! n) (kvs'' ! n)" by (rule fr)
  qed
  then show ?case unfolding c by (rule compacted.fields)
qed

lemma compacted_slice: "compacted (JList xs) (JList (slice_to n xs))"
proof -
  have "list_all2 compacted (take (length (take m xs)) xs) (take m xs)" for m
    by (simp add: list_all2_conv_all_nth compacted.same min_def)
  then have "compacted (JList xs) (JList (take m xs))" for m
    by (rule compacted.items)
  then show ?thesis
    by (simp add: slice_to_def)
qed

lemma compacted_map:
  assumes "\<And>x. x \<in> set xs \<Longrightarrow> compacted x (f x)"
  shows "compacted (JList xs) (JList (map f xs))"
proof -
  have "list_all2 compacted (take (length (map f xs)) xs) (map f xs)"
    using assms by (simp add: list_all2_conv_all_nth)
  then show ?thesis by (rule compacted.items)
qed

lemma compacted_update:
  assumes "map_of kvs k = Some v" and "compacted v v'"
  shows "compacted (JDict kvs) (JDict (AList.update k v' kvs))"
proof -
  from assms have "list_all2 (field_rel compacted) kvs (AList.update k v' kvs)"
  proof (induction kvs)
    case Nil
    then show ?case by simp
  next
    case (Cons a kvs)
    have r: "list_all2 (field_rel compacted) kvs kvs"
      by (simp add: list_all2_conv_all_nth compacted.same)
    show ?case
    proof (cases "fst a = k")
      case True
      with Cons.prems r show ?thesis by (cases a) (simp add: compacted.same)
    next
      case False
      with Cons show ?thesis by (cases a) (simp add: compacted.same)
    qed
  qed
  then show ?thesis by (rule compacted.fields)
qed

lemma compacted_limit_buckets: "compacted (JDict hh) (JDict (map (limit_bucket cfg) hh))"
proof -
  have "field_rel compacted kv (limit_bucket cfg kv)" for kv
    by (cases "snd kv") (auto simp: limit_bucket_def compacted.same compacted_slice)
  then have "list_all2 (field_rel compacted) hh (map (limit_bucket cfg) hh)"
    by (simp add: list_all2_conv_all_nth)
  then show ?thesis by (rule compacted.fields)
qed

lemma compacted_trunc_val:
  assumes "compacted v (truncate cfg v)"
  shows "compacted v (trunc_val cfg k v) \<or> (k \<noteq> ''outer_html'' \<and> is_str v \<and> is_str (trunc_val cfg k v))"
proof (cases "k = ''outer_html''")
  case True
  then show ?thesis by (simp add: trunc_val_def compacted.same)
next
  case False
  show ?thesis
  proof (cases v)
    case (JStr s)
    with False show ?thesis by (simp add: trunc_val_def is_str_def)
  next
    case (JList xs)
    with False assms show ?thesis by (simp add: trunc_val_def)
  next
    case (JDict d)
    with False assms show ?thesis by (simp add: trunc_val_def)
  qed (simp_all add: trunc_val_def compacted.same)
qed

lemma compacted_truncate: "compacted v (truncate cfg v)"
proof (induction v)
  case (JList xs)
  then show ?case by (simp add: compacted_map)
next
  case (JDict kvs)
  have "field_rel compacted kv (fst kv, trunc_val cfg (fst kv) (snd kv))" if "kv \<in> set kvs" for kv
  proof -
    have "snd kv \<in> Basic_BNFs.snds kv" by (cases kv) simp
    with that have "compacted (snd kv) (truncate cfg (snd kv))"
      by (rule JDict)
    from compacted_trunc_val[OF this] show ?thesis by simp
  qed
  then have "list_all2 (field_rel compacted) kvs (map (\<lambda>kv. (fst kv, trunc_val cfg (fst kv) (snd kv))) kvs)"
    by (simp add: list_all2_conv_all_nth)
  then show ?case unfolding truncate_dict by (rule compacted.fields)
qed (simp_all add: compacted.same)

lemma compacted_with_files:
  assumes "assembled p" and "compacted (JList (files_of p)) (JList fs')"
  shows "compacted p (with_files p fs')"
proof -
  from assms(1) obtain kvs j fs where p: "p = JDict kvs"
    and j: "map_of kvs ''javascript'' = Some (JDict j)"
    and f: "map_of j ''files'' = Some (JList fs)"
    by (rule assembledE)
  from assms(2) have "compacted (JList fs) (JList fs')"
    unfolding p by (simp add: get_files_eq(2)[OF j f])
  then have "compacted (JDict j) (JDict (AList.update ''files'' (JList fs') j))"
    by (rule compacted_update[OF f])
  then show ?thesis
    unfolding p set_files_eq(2)[OF j] by (rule compacted_update[OF j])
qed

lemma compacted_with_buckets:
  assumes "assembled p" and "compacted (JDict (buckets_of p)) (JDict hh')"
  shows "compacted p (with_buckets p hh')"
proof -
  from assms(1) obtain kvs h hh where p: "p = JDict kvs"
    and h: "map_of kvs ''html'' = Some (JDict h)"
    and hh: "map_of h ''highlights'' = Some (JDict hh)"
    by (rule assembledE)
  from assms(2) have "compacted (JDict hh) (JDict hh')"
    unfolding p by (simp add: get_highlights_eq(2)[OF h hh])
  then have "compacted (JDict h) (JDict (AList.update ''highlights'' (JDict hh') h))"
    by (rule compacted_update[OF hh])
  then show ?thesis
    unfolding p set_highlights_eq(2)[OF h] by (rule compacted_update[OF h])
qed

lemma compacted_cut_file: "file_ok f \<Longrightarrow> compacted f (cut_file cfg f)"
  by (erule file_okE) (auto simp: cut_file_eq compacted.same intro: compacted_update compacted_slice)

lemma compacted_pass:
  assumes "assembled p"
  shows "compacted p (pass cfg p)"
proof -
  have "compacted (JList (files_of p)) (JList (map (cut_file cfg) (files_of p)))"
    using assembled_files_ok[OF assms]
    by (intro compacted_map compacted_cut_file) (simp add: list_all_iff)
  then show ?thesis
    using assms
    by (simp add: pass_def compacted_with_files compacted_with_buckets compacted_slice
        compacted_limit_buckets compacted_truncate)
qed

lemma compacted_funpow: "assembled p \<Longrightarrow> compacted p ((pass cfg ^^ k) p)"
proof (induction k)
  case 0
  then show ?case by (simp add: compacted.same)
next
  case (Suc k)
  have "compacted ((pass cfg ^^ k) p) (pass cfg ((pass cfg ^^ k) p))"
    by (rule compacted_pass[OF assembled_funpow[OF Suc.prems]])
  with Suc show ?case by (auto intro: compacted_trans)
qed

lemma field_rel_map_of:
  assumes "list_all2 (field_rel R) kvs kvs'" and "map_of kvs' k = Some c"
  shows "\<exists>u. map_of kvs k = Some u \<and> (R u c \<or> (k \<noteq> ''outer_html'' \<and> is_str u \<and> is_str c))"
  using assms
proof (induction kvs kvs' rule: list_all2_induct)
  case Nil
  then show ?case by simp
next
  case (Cons a kvs b kvs')
  then show ?case by (cases a; cases b) (auto split: if_splits)
qed

lemma compacted_protected:
  "compacted a b \<Longrightarrow> lookup (p @ [Key ''outer_html'']) b = Some (JStr s) \<Longrightarrow>
   lookup (p @ [Key ''outer_html'']) a = Some (JStr s)"
proof (induction p arbitrary: a b)
  case Nil
  from Nil(2) obtain kvs' where b: "b = JDict kvs'" and m: "map_of kvs' ''outer_html'' = Some (JStr s)"
    by (cases b) (auto split: option.splits)
  from Nil(1) show ?case unfolding b
  proof (cases rule: compacted.cases)
    case same
    with m show ?thesis by (simp add: same[symmetric])
  next
    case (fields kvs)
    from field_rel_map_of[OF fields(2) m]
    obtain u where "map_of kvs ''outer_html'' = Some u" "compacted u (JStr s)" by auto
    with fields(1) show ?thesis by (auto dest: compacted_str_right)
  qed
next
  case (Cons x p)
  from Cons.prems(2) obtain c where cb: "child b x = Some c"
    and lc: "lookup (p @ [Key ''outer_html'']) c = Some (JStr s)"
    by (auto split: option.splits)
  have "\<exists>u. child a x = Some u \<and> (compacted u c \<or> is_str c)"
    using Cons.prems(1)
  proof (cases rule: compacted.cases)
    case same
    with cb show ?thesis by (auto intro: compacted.same)
  next
    case (items ys xs)
    with cb obtain i where "x = Idx i" "i < length ys" "c = ys ! i"
      by (cases x) (auto split: if_splits)
    with items show ?thesis by (auto simp: list_all2_conv_all_nth)
  next
    case (fields kvs kvs')
    with cb obtain k where x: "x = Key k" and m: "map_of kvs' k = Some c"
      by (cases x) auto
    from field_rel_map_of[OF fields(3) m] fields(1) x show ?thesis by auto
  qed
  then obtain u where ua: "child a x = Some u" and d: "compacted u c \<or> is_str c" by blast
  from d show ?case
  proof
    assume "compacted u c"
    from Cons.IH[OF this lc] ua show ?thesis by simp
  next
    assume "is_str c"
    with lc have False by (cases c; cases p) (auto simp: is_str_def split: option.splits)
    then show ?thesis ..
  qed
qed

section \<open>The measured size along the passes\<close>

lemma length_join:
  "length (join sep xs) = sum_list (map length xs) + length sep * (length xs - 1)"
  by (induction sep xs rule: join.induct) simp_all

lemma size_obj_list:
  "size_obj (JList xs) = 2 + sum_list (map size_obj xs) + 2 * (length xs - 1)"
  by (simp add: size_obj_def[abs_def] length_join comp_def)

lemma size_obj_dict:
  "size_obj (JDict kvs) = 2 + sum_list (map entry_size kvs) + 2 * (length kvs - 1)"
  by (simp add: size_obj_def[abs_def] length_join comp_def entry_size_def[abs_def])

lemma sum_list_take_le: "sum_list (take n xs) \<le> sum_list (xs :: nat list)"
proof -
  have "sum_list xs = sum_list (take n xs) + sum_list (drop n xs)"
    by (metis append_take_drop_id sum_list_append)
  then show ?thesis by simp
qed

lemma size_obj_take: "size_obj (JList (take n xs)) \<le> size_obj (JList xs)"
proof -
  have "sum_list (map size_obj (take n xs)) \<le> sum_list (map size_obj xs)"
    using sum_list_take_le[of n "map size_obj xs"] by (simp add: take_map)
  moreover have "length (take n xs) - 1 \<le> length xs - 1" by simp
  ultimately show ?thesis unfolding size_obj_list by linarith
qed

lemma size_obj_slice: "size_obj (JList (slice_to n xs)) \<le> size_obj (JList xs)"
  by (simp add: slice_to_def size_obj_take)

lemma size_obj_map:
  assumes "\<And>x. x \<in> set xs \<Longrightarrow> size_obj (f x) \<le> size_obj x"
  shows "size_obj (JList (map f xs)) \<le> size_obj (JList xs)"
proof -
  have "sum_list (map size_obj (map f xs)) \<le> sum_list (map size_obj xs)"
    unfolding map_map comp_def by (rule sum_list_mono) (rule assms)
  then show ?thesis unfolding size_obj_list by simp
qed

lemma size_obj_fields:
  assumes "\<And>kv. kv \<in> set kvs \<Longrightarrow> size_obj (g kv) \<le> size_obj (snd kv)"
  shows "size_obj (JDict (map (\<lambda>kv. (fst kv, g kv)) kvs)) \<le> size_obj (JDict kvs)"
proof -
  have "sum_list (map entry_size (map (\<lambda>kv. (fst kv, g kv)) kvs)) \<le> sum_list (map entry_size kvs)"
    unfolding map_map comp_def
    by (rule sum_list_mono) (use assms in \<open>simp add: entry_size_def\<close>)
  then show ?thesis unfolding size_obj_dict by simp
qed

lemma size_obj_update:
  assumes "map_of kvs k = Some v" and "size_obj v' \<le> size_obj v"
  shows "size_obj (JDict (AList.update k v' kvs)) \<le> size_obj (JDict kvs)"
proof -
  from assms have "sum_list (map entry_size (AList.update k v' kvs)) \<le> sum_list (map entry_size kvs)
      \<and> length (AList.update k v' kvs) = length kvs"
  proof (induction kvs)
    case Nil
    then show ?case by simp
  next
    case (Cons a kvs)
    show ?case
    proof (cases "fst a = k")
      case True
      with Cons.prems show ?thesis by (cases a) (simp add: entry_size_def)
    next
      case False
      with Cons show ?thesis by (cases a) simp
    qed
  qed
  then show ?thesis unfolding size_obj_dict by simp
qed

lemma esc_len_append: "esc_len (a @ b) = esc_len a + esc_len b"
  by (simp add: esc_len_def)

lemma escape_char_nonempty: "1 \<le> length (escape_char c)"
  by (simp add: escape_char_def)

lemma esc_len_ge: "length s \<le> esc_len s"
proof (induction s)
  case Nil
  then show ?case by (simp add: esc_len_def)
next
  case (Cons c s)
  have "esc_len (c # s) = length (escape_char c) + esc_len s"
    by (simp add: esc_len_def)
  with Cons escape_char_nonempty[of c] show ?case by simp
qed

lemma esc_len_marker: "esc_len ([nl] @ ''...'' @ [nl]) = 7"
  by (simp add: esc_len_def escape_char_def nl_def dq_def bsl_def)

lemma length_dumps_str: "length (dumps_str s) = esc_len s + 2"
  by (simp add: dumps_str_def esc_len_def)

lemma int_scale_bounds:
  assumes "51 \<le> L"
  shows "0 \<le> int_scale 6 L" and "1 \<le> int_scale 3 L"
    and "int_scale 6 L + int_scale 3 L + 6 \<le> L"
  using assms by (simp_all add: int_scale_def)

lemma truncate_text_split:
  assumes "4 \<le> L" and "L < int (length s)"
  shows "\<exists>a m c. s = a @ m @ c \<and> truncate_text (Some s) L = a @ [nl] @ ''...'' @ [nl] @ c \<and>
          int (length a) = int_scale 6 L \<and> int (length c) = int_scale 3 L"
proof -
  define h where "h = nat (int_scale 6 L)"
  define t where "t = nat (int_scale 3 L)"
  from assms(1) have h0: "0 \<le> int_scale 6 L" and t1: "1 \<le> int_scale 3 L"
    and ht: "int_scale 6 L + int_scale 3 L \<le> L"
    by (simp_all add: int_scale_def)
  from h0 t1 ht assms(2) have le: "h + t \<le> length s" and tpos: "0 < t"
    by (simp_all add: h_def t_def)
  let ?a = "take h s" and ?c = "drop (length s - t) s"
  let ?m = "take (length s - t - h) (drop h s)"
  have "drop h s = ?m @ drop (length s - t - h) (drop h s)"
    by (simp only: append_take_drop_id)
  also have "drop (length s - t - h) (drop h s) = ?c"
    using le by (simp add: add.commute)
  finally have dec: "s = ?a @ ?m @ ?c"
    by (metis append_take_drop_id)
  have s1: "slice_to (int_scale 6 L) s = ?a"
    using h0 by (simp add: slice_to_def h_def)
  have s2: "slice_from (- int_scale 3 L) s = ?c"
    using t1 by (simp add: slice_from_def t_def)
  have la: "int (length ?a) = int_scale 6 L"
    using le h0 by (simp add: h_def)
  have lc: "int (length ?c) = int_scale 3 L"
    using le t1 by (simp add: t_def)
  have tt: "truncate_text (Some s) L = ?a @ [nl] @ ''...'' @ [nl] @ ?c"
    using assms(2) by (simp add: truncate_text_def s1 s2)
  from dec tt la lc show ?thesis by blast
qed

lemma size_truncate_text:
  assumes "51 \<le> L" and "L < int (length s)"
  shows "length (dumps_str (truncate_text (Some s) L)) \<le> length (dumps_str s)"
proof -
  from assms have "4 \<le> L" by simp
  from truncate_text_split[OF this assms(2)]
  obtain a m c where s: "s = a @ m @ c"
    and t: "truncate_text (Some s) L = a @ [nl] @ ''...'' @ [nl] @ c"
    and la: "int (length a) = int_scale 6 L" and lc: "int (length c) = int_scale 3 L"
    by blast
  from int_scale_bounds(3)[OF assms(1)] la lc assms(2) s have "7 \<le> length m" by simp
  with esc_len_ge[of m] have "7 \<le> esc_len m" by simp
  moreover have "esc_len (truncate_text (Some s) L) = esc_len a + 7 + esc_len c"
    unfolding t using esc_len_marker by (simp add: esc_len_append del: append.simps)
  moreover have "esc_len s = esc_len a + esc_len m + esc_len c"
    unfolding s by (simp add: esc_len_append)
  ultimately show ?thesis by (simp add: length_dumps_str)
qed

lemma size_trunc_val:
  assumes "51 \<le> MAX_STR_FIELD cfg" and "size_obj (truncate cfg v) \<le> size_obj v"
  shows "size_obj (trunc_val cfg k v) \<le> size_obj v"
proof (cases v)
  case (JStr s)
  then show ?thesis
    using size_truncate_text[OF assms(1), of s] by (simp add: trunc_val_def size_obj_def)
qed (use assms(2) in \<open>simp_all add: trunc_val_def\<close>)

lemma size_truncate: "51 \<le> MAX_STR_FIELD cfg \<Longrightarrow> size_obj (truncate cfg v) \<le> size_obj v"
proof (induction v)
  case (JList xs)
  then show ?case by (simp add: size_obj_map)
next
  case (JDict kvs)
  have "size_obj (trunc_val cfg (fst kv) (snd kv)) \<le> size_obj (snd kv)" if "kv \<in> set kvs" for kv
  proof -
    have "snd kv \<in> Basic_BNFs.snds kv" by (cases kv) simp
    with that JDict.prems have "size_obj (truncate cfg (snd kv)) \<le> size_obj (snd kv)"
      by (intro JDict.IH)
    then show ?thesis by (rule size_trunc_val[OF JDict.prems])
  qed
  then show ?case unfolding truncate_dict by (rule size_obj_fields)
qed simp_all

lemma size_with_files:
  assumes "assembled p" and "size_obj (JList fs') \<le> size_obj (JList (files_of p))"
  shows "size_obj (with_files p fs') \<le> size_obj p"
proof -
  from assms(1) obtain kvs j fs where p: "p = JDict kvs"
    and j: "map_of kvs ''javascript'' = Some (JDict j)"
    and f: "map_of j ''files'' = Some (JList fs)"
    by (rule assembledE)
  from assms(2) have "size_obj (JList fs') \<le> size_obj (JList fs)"
    unfolding p by (simp add: get_files_eq(2)[OF j f])
  then have "size_obj (JDict (AList.update ''files'' (JList fs') j)) \<le> size_obj (JDict j)"
    by (rule size_obj_update[OF f])
  then show ?thesis
    unfolding p set_files_eq(2)[OF j] by (rule size_obj_update[OF j])
qed

lemma size_with_buckets:
  assumes "assembled p" and "size_obj (JDict hh') \<le> size_obj (JDict (buckets_of p))"
  shows "size_obj (with_buckets p hh') \<le> size_obj p"
proof -
  from assms(1) obtain kvs h hh where p: "p = JDict kvs"
    and h: "map_of kvs ''html'' = Some (JDict h)"
    and hh: "map_of h ''highlights'' = Some (JDict hh)"
    by (rule assembledE)
  from assms(2) have "size_obj (JDict hh') \<le> size_obj (JDict hh)"
    unfolding p by (simp add: get_highlights_eq(2)[OF h hh])
  then have "size_obj (JDict (AList.update ''highlights'' (JDict hh') h)) \<le> size_obj (JDict h)"
    by (rule size_obj_update[OF hh])
  then show ?thesis
    unfolding p set_highlights_eq(2)[OF h] by (rule size_obj_update[OF h])
qed

lemma size_cut_file: "file_ok f \<Longrightarrow> size_obj (cut_file cfg f) \<le> size_obj f"
  by (erule file_okE) (auto simp: cut_file_eq intro: size_obj_update size_obj_slice)

lemma size_limit_buckets: "size_obj (JDict (map (limit_bucket cfg) hh)) \<le> size_obj (JDict hh)"
proof -
  have e: "limit_bucket cfg kv = (fst kv, snd (limit_bucket cfg kv))" for kv
    by (cases kv; cases "snd kv") (auto simp: limit_bucket_def)
  have "size_obj (snd (limit_bucket cfg kv)) \<le> size_obj (snd kv)" for kv
    by (cases "snd kv") (auto simp: limit_bucket_def size_obj_slice)
  then have "size_obj (JDict (map (\<lambda>kv. (fst kv, snd (limit_bucket cfg kv))) hh)) \<le> size_obj (JDict hh)"
    by (intro size_obj_fields)
  with e show ?thesis by (metis (no_types, lifting) map_eq_conv)
qed

lemma size_pass:
  assumes "assembled p" and "51 \<le> MAX_STR_FIELD cfg"
  shows "size_obj (pass cfg p) \<le> size_obj p"
proof -
  have "size_obj (JList (map (cut_file cfg) (files_of p))) \<le> size_obj (JList (files_of p))"
    using assembled_files_ok[OF assms(1)]
    by (intro size_obj_map size_cut_file) (simp add: list_all_iff)
  then show ?thesis
    using assms
    by (simp add: pass_def size_with_files size_with_buckets size_obj_slice
        size_limit_buckets size_truncate)
qed

lemma size_funpow:
  assumes "assembled p" and "51 \<le> MAX_STR_FIELD cfg"
  shows "size_obj ((pass cfg ^^ k) p) \<le> size_obj p"
proof (induction k)
  case 0
  then show ?case by simp
next
  case (Suc k)
  have "size_obj (pass cfg ((pass cfg ^^ k) p)) \<le> size_obj ((pass cfg ^^ k) p)"
    by (rule size_pass[OF assembled_funpow[OF assms(1)] assms(2)])
  with Suc show ?case by simp
qed

section \<open>The passes reach a fixed point\<close>

lemma truncate_text_idem:
  assumes "4 \<le> L"
  shows "truncate_text (Some (truncate_text (Some s) L)) L = truncate_text (Some s) L"
proof (cases "L < int (length s)")
  case False
  then show ?thesis by (simp add: truncate_text_def)
next
  case True
  from truncate_text_split[OF assms True]
  obtain a c where t: "truncate_text (Some s) L = a @ [nl] @ ''...'' @ [nl] @ c"
    and la: "int (length a) = int_scale 6 L" and lc: "int (length c) = int_scale 3 L"
    by blast
  from assms have h0: "0 \<le> int_scale 6 L" and t1: "1 \<le> int_scale 3 L"
    by (simp_all add: int_scale_def)
  let ?s' = "a @ [nl] @ ''...'' @ [nl] @ c"
  have a: "slice_to (int_scale 6 L) ?s' = a"
    using h0 la by (simp add: slice_to_def)
  have "nat (int_scale 3 L) = length c" using lc by simp
  then have c: "slice_from (- int_scale 3 L) ?s' = c"
    using t1 by (simp add: slice_from_def)
  show ?thesis
    unfolding t by (simp only: truncate_text_def option.case a c if_cancel)
qed

lemma trunc_val_idem:
  assumes "4 \<le> MAX_STR_FIELD cfg" and "truncate cfg (truncate cfg v) = truncate cfg v"
  shows "trunc_val cfg k (trunc_val cfg k v) = trunc_val cfg k v"
proof (cases "k = ''outer_html''")
  case True
  then show ?thesis by (simp add: trunc_val_def)
next
  case False
  show ?thesis
  proof (cases v)
    case (JStr s)
    with False truncate_text_idem[OF assms(1), of s] show ?thesis
      by (simp add: trunc_val_def)
  next
    case (JList xs)
    with False assms(2) show ?thesis by (simp add: trunc_val_def)
  next
    case (JDict d)
    with False assms(2) show ?thesis by (simp add: trunc_val_def truncate_dict)
  qed (simp_all add: trunc_val_def)
qed

lemma truncate_idem:
  "4 \<le> MAX_STR_FIELD cfg \<Longrightarrow> truncate cfg (truncate cfg v) = truncate cfg v"
proof (induction v)
  case (JList xs)
  then show ?case by simp
next
  case (JDict kvs)
  have "trunc_val cfg (fst kv) (trunc_val cfg (fst kv) (snd kv)) = trunc_val cfg (fst kv) (snd kv)"
    if "kv \<in> set kvs" for kv
  proof -
    have "snd kv \<in> Basic_BNFs.snds kv" by (cases kv) simp
    with that JDict.prems have "truncate cfg (truncate cfg (snd kv)) = truncate cfg (snd kv)"
      by (intro JDict.IH)
    then show ?thesis by (rule trunc_val_idem[OF JDict.prems])
  qed
  then show ?case by (simp add: truncate_dict comp_def)
qed simp_all

lemma length_slice_to: "0 \<le> n \<Longrightarrow> int (length (slice_to n xs)) \<le> n"
  by (simp add: slice_to_def)

lemma files_within_pass:
  assumes "assembled p" and "0 \<le> MAX_JS_FILES cfg"
  shows "files_within cfg (pass cfg p)"
proof -
  note ok = assembled_files_ok[OF assms(1)]
  have c: "list_all file_ok (map (cut_file cfg) (files_of p))"
    using ok by (simp add: list_all_iff file_ok_cut)
  show ?thesis
    using assms ok c
    by (simp add: files_within_def pass_def assembled_with_files(2) assembled_with_buckets(3)
        assembled_truncate(2) file_ok_slice length_slice_to)
qed

lemma file_over_cut:
  assumes "file_ok f" and "0 \<le> MAX_JS_EVIDENCE_PER_FILE cfg"
  shows "\<not> file_over cfg (cut_file cfg f)"
proof -
  from assms(1) obtain kv ev where f: "f = JDict kv" and e: "map_of kv ''evidences'' = Some (JList ev)"
    by (rule file_okE)
  let ?n = "MAX_JS_EVIDENCE_PER_FILE cfg"
  show ?thesis
  proof (cases "int (length ev) > ?n")
    case True
    have "map_of (AList.update ''evidences'' (JList (slice_to ?n ev)) kv) ''evidences'' =
          Some (JList (slice_to ?n ev))"
      by (simp add: update_conv')
    from cut_file_eq(2)[OF this, of cfg] length_slice_to[OF assms(2), of ev] True
    show ?thesis unfolding f by (simp add: cut_file_eq(1)[OF e])
  next
    case False
    then show ?thesis unfolding f by (simp add: cut_file_eq[OF e])
  qed
qed

lemma file_over_truncate:
  assumes "file_ok f"
  shows "file_over cfg (truncate cfg' f) = file_over cfg f"
proof -
  from assms obtain kv ev where f: "f = JDict kv" and e: "map_of kv ''evidences'' = Some (JList ev)"
    by (rule file_okE)
  have "map_of (map (\<lambda>kv. (fst kv, trunc_val cfg' (fst kv) (snd kv))) kv) ''evidences'' =
        Some (JList (map (truncate cfg') ev))"
    by (simp add: map_of_map_val e trunc_val_node)
  from cut_file_eq(2)[OF this] cut_file_eq(2)[OF e] show ?thesis
    unfolding f truncate_dict by simp
qed

lemma evidences_within_pass:
  assumes "assembled p" and "files_within cfg p" and "0 \<le> MAX_JS_EVIDENCE_PER_FILE cfg"
  shows "evidences_within cfg (pass cfg p)"
proof -
  note ok = assembled_files_ok[OF assms(1)]
  have c: "list_all file_ok (map (cut_file cfg) (files_of p))"
    using ok by (simp add: list_all_iff file_ok_cut)
  have 1: "\<not> list_ex (file_over cfg) (map (cut_file cfg) (files_of p))"
    using ok by (simp add: list_ex_iff list_all_iff file_over_cut[OF _ assms(3)])
  have 2: "list_ex (file_over cfg) (map (truncate cfg) (files_of p)) = list_ex (file_over cfg) (files_of p)"
    using ok by (simp add: list_ex_iff list_all_iff file_over_truncate)
  show ?thesis
    using assms(1,2) c 1 2
    by (simp add: evidences_within_def files_within_def pass_def assembled_with_files(2)
        assembled_with_buckets(3) assembled_truncate(2))
qed

lemma bucket_over_limit:
  assumes "0 \<le> MAX_HTML_EVIDENCE_PER_BUCKET cfg"
  shows "\<not> bucket_over cfg (snd (limit_bucket cfg kv))"
proof (cases "snd kv")
  case (JList xs)
  with length_slice_to[OF assms, of xs] show ?thesis
    by (simp add: limit_bucket_def bucket_over_def)
qed (simp_all add: limit_bucket_def bucket_over_def)

lemma bucket_over_trunc_val: "bucket_over cfg (trunc_val cfg' k v) = bucket_over cfg v"
  by (cases v) (simp_all add: trunc_val_def bucket_over_def truncate_dict)

lemma buckets_within_pass:
  assumes "assembled p" and "files_within cfg p" and "evidences_within cfg p"
    and "0 \<le> MAX_HTML_EVIDENCE_PER_BUCKET cfg"
  shows "buckets_within cfg (pass cfg p)"
  using assms
  by (simp add: buckets_within_def evidences_within_def files_within_def pass_def
      assembled_with_buckets(2) assembled_truncate(3) list_ex_iff bucket_over_limit
      bucket_over_trunc_val)

lemma pass_settled:
  assumes "files_within cfg p" and "evidences_within cfg p" and "buckets_within cfg p"
  shows "pass cfg p = truncate cfg p"
  using assms by (simp add: pass_def files_within_def evidences_within_def buckets_within_def)

lemma reduced_after_four:
  assumes "assembled p" and "counts_nonneg cfg" and "4 \<le> MAX_STR_FIELD cfg"
  shows "reduced cfg ((pass cfg ^^ 4) p)"
proof -
  from assms(2) have n1: "0 \<le> MAX_JS_FILES cfg" and n2: "0 \<le> MAX_JS_EVIDENCE_PER_FILE cfg"
    and n3: "0 \<le> MAX_HTML_EVIDENCE_PER_BUCKET cfg"
    by (simp_all add: counts_nonneg_def)
  define p1 where "p1 = pass cfg p"
  define p2 where "p2 = pass cfg p1"
  define p3 where "p3 = pass cfg p2"
  define p4 where "p4 = pass cfg p3"
  have a1: "assembled p1" unfolding p1_def by (rule assembled_pass[OF assms(1)])
  have a2: "assembled p2" unfolding p2_def by (rule assembled_pass[OF a1])
  have a3: "assembled p3" unfolding p3_def by (rule assembled_pass[OF a2])
  have f1: "files_within cfg p1" unfolding p1_def by (rule files_within_pass[OF assms(1) n1])
  have f2: "files_within cfg p2" unfolding p2_def by (rule files_within_pass[OF a1 n1])
  have f3: "files_within cfg p3" unfolding p3_def by (rule files_within_pass[OF a2 n1])
  have f4: "files_within cfg p4" unfolding p4_def by (rule files_within_pass[OF a3 n1])
  have e2: "evidences_within cfg p2" unfolding p2_def by (rule evidences_within_pass[OF a1 f1 n2])
  have e3: "evidences_within cfg p3" unfolding p3_def by (rule evidences_within_pass[OF a2 f2 n2])
  have e4: "evidences_within cfg p4" unfolding p4_def by (rule evidences_within_pass[OF a3 f3 n2])
  have b3: "buckets_within cfg p3" unfolding p3_def by (rule buckets_within_pass[OF a2 f2 e2 n3])
  have b4: "buckets_within cfg p4" unfolding p4_def by (rule buckets_within_pass[OF a3 f3 e3 n3])
  have "p4 = truncate cfg p3" unfolding p4_def by (rule pass_settled[OF f3 e3 b3])
  then have "truncate cfg p4 = p4" by (simp add: truncate_idem[OF assms(3)])
  with f4 e4 b4 have "reduced cfg p4" by (simp add: reduced_def)
  moreover have "(pass cfg ^^ 4) p = p4"
    by (simp add: p4_def p3_def p2_def p1_def numeral_eq_Suc)
  ultimately show ?thesis by simp
qed

lemma pass_reduced: "reduced cfg p \<Longrightarrow> pass cfg p = p"
  by (simp add: reduced_def pass_settled)

lemma pass_fixed_after_four:
  assumes "assembled p" and "counts_nonneg cfg" and "4 \<le> MAX_STR_FIELD cfg"
  shows "pass cfg ((pass cfg ^^ 4) p) = (pass cfg ^^ 4) p"
  by (rule pass_reduced[OF reduced_after_four[OF assms]])

lemma funpow_fixed: "f x = x \<Longrightarrow> (f ^^ n) x = x"
  by (induction n) simp_all

lemma pass_fixed_at_cap:
  assumes "assembled p" and "counts_nonneg cfg" and "4 \<le> MAX_STR_FIELD cfg"
  shows "pass cfg ((pass cfg ^^ 20) p) = (pass cfg ^^ 20) p"
proof -
  have "(20::nat) = 16 + 4" by simp
  then have "(pass cfg ^^ 20) p = (pass cfg ^^ (16 + 4)) p" by (simp only:)
  also have "\<dots> = (pass cfg ^^ 16) ((pass cfg ^^ 4) p)"
    by (simp only: funpow_add comp_apply)
  also have "\<dots> = (pass cfg ^^ 4) p"
    using pass_fixed_after_four[OF assms]
    by (rule funpow_fixed[of "pass cfg" "(pass cfg ^^ 4) p" 16])
  finally show ?thesis using pass_fixed_after_four[OF assms] by simp
qed

lemma shrink_loop_fixed:
  "assembled q \<Longrightarrow> pass cfg q = q \<Longrightarrow> shrink_loop cfg limit n q = Inr q"
  by (induction n) (simp_all add: step_pass)

lemma funpow_cap:
  assumes "assembled p" and "counts_nonneg cfg" and "4 \<le> MAX_STR_FIELD cfg"
  shows "(pass cfg ^^ 20) p = (pass cfg ^^ 4) p"
proof -
  have "(20::nat) = 16 + 4" by simp
  then have "(pass cfg ^^ 20) p = (pass cfg ^^ (16 + 4)) p" by (simp only:)
  also have "\<dots> = (pass cfg ^^ 16) ((pass cfg ^^ 4) p)"
    by (simp only: funpow_add comp_apply)
  also have "\<dots> = (pass cfg ^^ 4) p"
    using pass_fixed_after_four[OF assms]
    by (rule funpow_fixed[of "pass cfg" "(pass cfg ^^ 4) p" 16])
  finally show ?thesis .
qed

lemma reduced_at_cap:
  assumes "assembled p" and "counts_nonneg cfg" and "4 \<le> MAX_STR_FIELD cfg"
  shows "reduced cfg ((pass cfg ^^ 20) p)"
  unfolding funpow_cap[OF assms] by (rule reduced_after_four[OF assms])

lemma shrink_loop_step_fixed:
  "shrink_step cfg q = Inr q \<Longrightarrow> shrink_loop cfg limit n q = Inr q"
  by (induction n) simp_all

lemma shrink_payload_converged:
  assumes "int (size_obj q) \<le> limit \<or> shrink_step cfg q = Inr q"
  shows "shrink_payload cfg q limit = Inr q"
  using assms
proof
  assume "int (size_obj q) \<le> limit"
  then show ?thesis by (simp add: shrink_payload_def numeral_eq_Suc)
next
  assume "shrink_step cfg q = Inr q"
  then show ?thesis unfolding shrink_payload_def by (rule shrink_loop_step_fixed)
qed

section \<open>Properties of the JS extractor\<close>

lemma match_loop_append:
  "match_loop lines js_text filename d ms evidences =
     evidences @ map (mk_evidence lines js_text filename d) ms"
  by (induction ms arbitrary: evidences) simp_all

lemma pattern_loop_append:
  "pattern_loop finditer lines js_text filename ds evidences =
     evidences @ concat (map (\<lambda>d. map (mk_evidence lines js_text filename d) (finditer (fst d) js_text)) ds)"
  by (induction ds arbitrary: evidences) (simp_all add: match_loop_append)

lemma analyze_js_concat:
  "analyze_js finditer js_text filename =
     concat (map (\<lambda>d. map (mk_evidence (splitlines js_text) js_text filename d) (finditer (fst d) js_text)) JS_PATTERNS)"
  by (simp add: analyze_js_def pattern_loop_append)

lemma count_list_take_card:
  "count_list (take m xs) c = card {i. i < m \<and> i < length xs \<and> xs ! i = c}"
proof (induction xs arbitrary: m rule: rev_induct)
  case Nil
  then show ?case by simp
next
  case (snoc x xs)
  show ?case
  proof (cases "m \<le> length xs")
    case True
    have "{i. i < m \<and> i < length (xs @ [x]) \<and> (xs @ [x]) ! i = c} = {i. i < m \<and> i < length xs \<and> xs ! i = c}"
      using True by (auto simp: nth_append)
    with True snoc show ?thesis by simp
  next
    case False
    then have m: "length xs < m" by simp
    have fin: "finite {i. i < length xs \<and> xs ! i = c}" by simp
    have "{i. i < m \<and> i < length (xs @ [x]) \<and> (xs @ [x]) ! i = c} =
          {i. i < length xs \<and> xs ! i = c} \<union> (if x = c then {length xs} else {})"
      using m by (auto simp: nth_append less_Suc_eq)
    moreover have "{i. i < length xs \<and> i < length xs \<and> xs ! i = c} = {i. i < length xs \<and> xs ! i = c}"
      by auto
    ultimately show ?thesis
      using m snoc[of "length xs"] fin by simp
  qed
qed

lemma line_no_at_card:
  "line_no_at js_text m = 1 + card {i. i < m \<and> i < length js_text \<and> js_text ! i = nl}"
  by (simp add: line_no_at_def count_list_take_card)

lemma count_list_take_mono: "m \<le> n \<Longrightarrow> count_list (take m xs) c \<le> count_list (take n xs) c"
proof -
  assume "m \<le> n"
  then have "take n xs = take m xs @ take (n - m) (drop m xs)"
    by (metis le_add_diff_inverse take_add)
  then show ?thesis by simp
qed

lemma line_no_at_mono: "m \<le> n \<Longrightarrow> line_no_at t m \<le> line_no_at t n"
  by (simp add: line_no_at_def count_list_take_mono)

lemma sorted_line_nos: "sorted_wrt (<) ms \<Longrightarrow> sorted (map (\<lambda>m. line_no_at t m) ms)"
  by (induction ms) (auto intro: line_no_at_mono less_imp_le)

text \<open>
  The first line of a context is the matched line itself, never the line before it: for
  a match on line \<open>k + 1\<close> the entries are the lines \<open>k + 1\<close> to \<open>k + 3\<close>
  that the file has.
\<close>

lemma context_at_lines:
  "map fst (context_at lines (Suc k)) = map Suc [k ..< min (length lines) (k + 3)]"
  by (simp add: context_at_def comp_def numeral_3_eq_3)

text \<open>
  C6 (the context window the code builds). The comment in the source asks for the line
  before, the matched line and the line after, but the loop runs over
  \<^verbatim>\<open>range(line_no - 1, line_no + 2)\<close> as indices of \<^verbatim>\<open>lines\<close>, where
  \<^verbatim>\<open>line_no\<close> is already one more than the index of the matched line. For the
  script of two lines \<^verbatim>\<open>const x = 1;\<close> and \<^verbatim>\<open>eval(userInput);\<close> the hit of the
  eval detector is on line 2 and its context is line 2 alone, without line 1; and a
  match on the first of three lines gets three context entries, the lines 1 to 3.
\<close>

theorem context_window_starts_at_match:
  "map (\<lambda>h. (hit_pattern h, hit_line_no h, hit_context h))
     (analyze_js sample_finditer (''const x = 1;'' @ [nl] @ ''eval(userInput);'' @ [nl]) ''a.js'') =
     [(''use_of_eval'', 2, [(2, ''eval(userInput);'')])] \<and>
   map (\<lambda>h. (hit_line_no h, hit_context h))
     (analyze_js sample_finditer (''eval(a);'' @ [nl] @ ''b;'' @ [nl] @ ''c;'' @ [nl]) ''a.js'') =
     [(1, [(1, ''eval(a);''), (2, ''b;''), (3, ''c;'')])]"
  by code_simp

text \<open>
  C7. The line number of every reported hit is one more than the number of line feeds
  that stand before the start offset of its match: hit by hit, the line numbers of the
  evidences are those numbers for the matches of the detectors.
\<close>

theorem line_numbers_count_newlines:
  "map hit_line_no (analyze_js finditer js_text filename) =
     concat (map (\<lambda>d. map (\<lambda>m. 1 + card {i. i < m \<and> i < length js_text \<and> js_text ! i = nl})
                        (finditer (fst d) js_text)) JS_PATTERNS)"
  by (simp add: analyze_js_concat map_concat comp_def mk_evidence_def line_no_at_card)

text \<open>
  C10. The evidences of a file are ordered by detector first: they are the hits of the
  first detector of \<^verbatim>\<open>JS_PATTERNS\<close>, then those of the second, and so on, each
  detector's hits in the order of its matches; when the matcher yields the matches of a
  pattern by increasing start offset, the line numbers within one detector never
  decrease.
\<close>

theorem evidences_detector_major:
  assumes "list_all (\<lambda>d. sorted_wrt (<) (finditer (fst d) js_text)) JS_PATTERNS"
  shows "analyze_js finditer js_text filename =
           concat (map (\<lambda>d. map (mk_evidence (splitlines js_text) js_text filename d)
                              (finditer (fst d) js_text)) JS_PATTERNS) \<and>
         list_all (\<lambda>d. sorted (map hit_line_no
                      (map (mk_evidence (splitlines js_text) js_text filename d)
                           (finditer (fst d) js_text)))) JS_PATTERNS"
  using assms by (auto simp: analyze_js_concat comp_def mk_evidence_def sorted_line_nos list_all_iff)

text \<open>
  An instance: the text \<^verbatim>\<open>location.href; eval(a);\<close> has its \<^verbatim>\<open>location\<close> match
  at offset 0 and its \<^verbatim>\<open>eval\<close> match at offset 15, and the eval hit comes first.
\<close>

theorem evidences_detector_major_witness:
  "list_all (\<lambda>d. sorted_wrt (<) (sample_finditer (fst d) ''location.href; eval(a);'')) JS_PATTERNS \<and>
   sample_finditer (fst (JS_PATTERNS ! 0)) ''location.href; eval(a);'' = [15] \<and>
   sample_finditer (fst (JS_PATTERNS ! 15)) ''location.href; eval(a);'' = [0] \<and>
   map hit_pattern (analyze_js sample_finditer ''location.href; eval(a);'' ''a.js'') =
     [''use_of_eval'', ''location_usage'']"
proof -
  have h: "list_all (\<lambda>d. sorted_wrt (<) (sample_finditer (fst d) ''location.href; eval(a);'')) JS_PATTERNS"
    by code_simp
  have e: "sample_finditer (fst (JS_PATTERNS ! 0)) ''location.href; eval(a);'' = [15]"
    by code_simp
  have l: "sample_finditer (fst (JS_PATTERNS ! 15)) ''location.href; eval(a);'' = [0]"
    by code_simp
  have c: "map hit_pattern (concat (map (\<lambda>d. map (mk_evidence (splitlines ''location.href; eval(a);'')
             ''location.href; eval(a);'' ''a.js'' d)
             (sample_finditer (fst d) ''location.href; eval(a);'')) JS_PATTERNS)) =
           [''use_of_eval'', ''location_usage'']"
    by code_simp
  from evidences_detector_major[of sample_finditer "''location.href; eval(a);''" "''a.js''"] h
  have "analyze_js sample_finditer ''location.href; eval(a);'' ''a.js'' =
           concat (map (\<lambda>d. map (mk_evidence (splitlines ''location.href; eval(a);'')
             ''location.href; eval(a);'' ''a.js'' d)
             (sample_finditer (fst d) ''location.href; eval(a);'')) JS_PATTERNS)"
    by simp
  with h e l c show ?thesis by simp
qed

section \<open>Properties of URL resolution\<close>

text \<open>
  C8 as the spec states it fails for the empty reference: the claimed rule resolves it
  against the base (or returns it unchanged), the code returns \<^verbatim>\<open>None\<close>.
\<close>

theorem abs_url_empty_reference_counterexample:
  "abs_url sample_urljoin (Some ''https://a.test/page'') (Some []) \<noteq>
     Some (spec_abs_url sample_urljoin ''https://a.test/page'' [])"
  by (simp add: abs_url_def)

text \<open>
  C8, amended. URL resolution never raises. An absent or empty reference gives
  \<^verbatim>\<open>None\<close>. A non-empty reference that, stripped and lower-cased, starts with
  \<^verbatim>\<open>data:\<close> is returned verbatim; any other non-empty reference is resolved
  against the base URL (the empty string when there is none), and when the resolution
  raises, the raw reference is returned unchanged.
\<close>

theorem abs_url_cases:
  "abs_url urljoin base None = None \<and>
   abs_url urljoin base (Some []) = None \<and>
   (r \<noteq> [] \<longrightarrow> abs_url urljoin base (Some r) =
      Some (spec_abs_url urljoin (case base of None \<Rightarrow> [] | Some b \<Rightarrow> b) r))"
  by (auto simp: abs_url_def spec_abs_url_def is_data_uri_def split: sum.splits)

theorem abs_url_cases_witness:
  "''/api/user?id=1'' \<noteq> [] \<and>
   abs_url sample_urljoin (Some ''https://a.test/page'') (Some ''/api/user?id=1'') =
     Some ''https://a.test/api/user?id=1'' \<and>
   abs_url sample_urljoin (Some ''https://a.test/page'') (Some '' DATA:text/html,x'') =
     Some '' DATA:text/html,x'' \<and>
   abs_url sample_urljoin (Some ''https://a.test/page'') (Some ''http://[::1'') =
     Some ''http://[::1''"
proof -
  have a: "spec_abs_url sample_urljoin ''https://a.test/page'' ''/api/user?id=1'' =
      ''https://a.test/api/user?id=1''"
    by code_simp
  have b: "spec_abs_url sample_urljoin ''https://a.test/page'' '' DATA:text/html,x'' =
      '' DATA:text/html,x''"
    by code_simp
  have c: "spec_abs_url sample_urljoin ''https://a.test/page'' ''http://[::1'' = ''http://[::1''"
    by code_simp
  show ?thesis
    using abs_url_cases[of sample_urljoin "Some ''https://a.test/page''" "''/api/user?id=1''"]
      abs_url_cases[of sample_urljoin "Some ''https://a.test/page''" "'' DATA:text/html,x''"]
      abs_url_cases[of sample_urljoin "Some ''https://a.test/page''" "''http://[::1''"] a b c
    by simp
qed

section \<open>Properties of the anchor checks\<close>

lemma contains_iff: "contains s sub \<longleftrightarrow> (\<exists>pre post. s = pre @ sub @ post)"
proof (induction s)
  case Nil
  then show ?case by auto
next
  case (Cons c cs)
  have a: "startswith (c # cs) sub \<longleftrightarrow> (\<exists>post. c # cs = sub @ post)"
    unfolding startswith_def
    by (metis append_eq_conv_conj)
  have b: "(\<exists>pre post. c # cs = pre @ sub @ post) \<longleftrightarrow>
           (\<exists>post. c # cs = sub @ post) \<or> (\<exists>pre post. cs = pre @ sub @ post)"
  proof
    assume "\<exists>pre post. c # cs = pre @ sub @ post"
    then obtain pre post where e: "c # cs = pre @ sub @ post" by blast
    show "(\<exists>post. c # cs = sub @ post) \<or> (\<exists>pre post. cs = pre @ sub @ post)"
    proof (cases pre)
      case Nil
      with e show ?thesis by auto
    next
      case (Cons p ps)
      with e have "cs = ps @ sub @ post" by simp
      then show ?thesis by blast
    qed
  next
    assume "(\<exists>post. c # cs = sub @ post) \<or> (\<exists>pre post. cs = pre @ sub @ post)"
    then show "\<exists>pre post. c # cs = pre @ sub @ post"
    proof
      assume "\<exists>post. c # cs = sub @ post"
      then obtain post where "c # cs = [] @ sub @ post" by auto
      then show ?thesis by blast
    next
      assume "\<exists>pre post. cs = pre @ sub @ post"
      then obtain pre post where "cs = pre @ sub @ post" by blast
      then have "c # cs = (c # pre) @ sub @ post" by simp
      then show ?thesis by blast
    qed
  qed
  show ?case using Cons.IH a b by simp
qed

lemma anchor_loop_target_blank:
  "anchor_loop urljoin site_url as ev = Inr ev' \<Longrightarrow>
   target_blank_without_noopener ev' =
     target_blank_without_noopener ev @ map (tb_record urljoin site_url) (filter blank_without_noopener as)"
proof (induction as arbitrary: ev)
  case Nil
  then show ?case by simp
next
  case (Cons a as)
  from Cons.prems obtain ev1 where s: "anchor_step urljoin site_url a ev = Inr ev1"
    and l: "anchor_loop urljoin site_url as ev1 = Inr ev'"
    by (auto simp: ebind_def split: sum.splits)
  from s have "target_blank_without_noopener ev1 =
      target_blank_without_noopener ev @ map (tb_record urljoin site_url) (filter blank_without_noopener [a])"
    by (auto simp: anchor_step_def tb_record_def Let_def split: option.splits attr_value.splits if_splits)
  with Cons.IH[OF l] show ?case by simp
qed

text \<open>
  C9 as the spec states it fails: an anchor with \<^verbatim>\<open>target="_blank"\<close> and
  \<^verbatim>\<open>rel="nonoopener"\<close> has no token equal to \<^verbatim>\<open>noopener\<close>, and the code does
  not record it, because \<^verbatim>\<open>noopener\<close> is a substring of its \<^verbatim>\<open>rel\<close>.
\<close>

theorem target_blank_token_counterexample:
  "spec_blank_without_noopener
     \<lparr>el_name = ''a'',
      el_attrs = [(''href'', AStr ''x.html''), (''target'', AStr ''_blank''), (''rel'', AToks [''nonoopener''])],
      el_str = Some ''<a href=x.html target=_blank rel=nonoopener>x</a>'', el_text = Some ''x''\<rparr> \<and>
   analyze_anchors sample_urljoin None
     [\<lparr>el_name = ''a'',
       el_attrs = [(''href'', AStr ''x.html''), (''target'', AStr ''_blank''), (''rel'', AToks [''nonoopener''])],
       el_str = Some ''<a href=x.html target=_blank rel=nonoopener>x</a>'', el_text = Some ''x''\<rparr>] =
     Inr \<lparr>javascript_href_links = [], target_blank_without_noopener = [],
          links = [\<lparr>ln_outer_html = ''<a href=x.html target=_blank rel=nonoopener>x</a>'',
                    ln_href = ''x.html'', ln_href_abs = Some ''x.html''\<rparr>]\<rparr>"
  by code_simp

text \<open>
  C9, amended. The target-blank bucket holds, in document order, one record for each
  anchor with an \<^verbatim>\<open>href\<close> that passes the test of the code; and such an anchor is
  recorded if and only if its \<^verbatim>\<open>target\<close> equals \<^verbatim>\<open>_blank\<close> and its
  \<^verbatim>\<open>rel\<close> is absent or empty or, joined by single spaces, does not contain
  \<^verbatim>\<open>noopener\<close> as a substring.
\<close>

theorem target_blank_bucket:
  assumes "analyze_anchors urljoin site_url els = Inr ev"
  shows "target_blank_without_noopener ev =
           map (tb_record urljoin site_url) (filter blank_without_noopener (find_all_a_href els)) \<and>
         (\<forall>a \<in> set (find_all_a_href els).
            tb_record urljoin site_url a \<in> set (target_blank_without_noopener ev) \<longleftrightarrow>
            (el_get a ''target'' = Some (AStr ''_blank'') \<and>
             (attr_falsy (el_get a ''rel'') \<or>
              \<not> (\<exists>pre post. join_attr (the (el_get a ''rel'')) = pre @ ''noopener'' @ post))))"
proof -
  have eq: "target_blank_without_noopener ev =
           map (tb_record urljoin site_url) (filter blank_without_noopener (find_all_a_href els))"
    using anchor_loop_target_blank[of urljoin site_url "find_all_a_href els" _ ev] assms
    by (simp add: analyze_anchors_def)
  have same: "blank_without_noopener b = blank_without_noopener a"
    if "tb_record urljoin site_url b = tb_record urljoin site_url a" for a b
  proof -
    from that have "el_get b ''target'' = el_get a ''target''" "el_get b ''rel'' = el_get a ''rel''"
      by (simp_all add: tb_record_def Let_def)
    then show ?thesis by (simp add: blank_without_noopener_def)
  qed
  have unfold: "blank_without_noopener a \<longleftrightarrow>
      (el_get a ''target'' = Some (AStr ''_blank'') \<and>
             (attr_falsy (el_get a ''rel'') \<or>
              \<not> (\<exists>pre post. join_attr (the (el_get a ''rel'')) = pre @ ''noopener'' @ post)))" for a
    by (cases "el_get a ''rel''") (auto simp: blank_without_noopener_def contains_iff attr_falsy_def join_attr_def)
  have "tb_record urljoin site_url a \<in> set (target_blank_without_noopener ev) \<longleftrightarrow> blank_without_noopener a"
    if "a \<in> set (find_all_a_href els)" for a
  proof
    assume "tb_record urljoin site_url a \<in> set (target_blank_without_noopener ev)"
    then obtain b where "blank_without_noopener b" "tb_record urljoin site_url b = tb_record urljoin site_url a"
      unfolding eq by auto
    then show "blank_without_noopener a" using same by blast
  next
    assume "blank_without_noopener a"
    with that show "tb_record urljoin site_url a \<in> set (target_blank_without_noopener ev)"
      unfolding eq by simp
  qed
  then have "\<forall>a \<in> set (find_all_a_href els).
            tb_record urljoin site_url a \<in> set (target_blank_without_noopener ev) \<longleftrightarrow>
            (el_get a ''target'' = Some (AStr ''_blank'') \<and>
             (attr_falsy (el_get a ''rel'') \<or>
              \<not> (\<exists>pre post. join_attr (the (el_get a ''rel'')) = pre @ ''noopener'' @ post)))"
    unfolding unfold by simp
  with eq show ?thesis by simp
qed

theorem target_blank_bucket_witness:
  "analyze_anchors sample_urljoin (Some ''https://a.test/page'')
     [\<lparr>el_name = ''a'', el_attrs = [(''href'', AStr ''x.html''), (''target'', AStr ''_blank'')],
       el_str = Some ''<a href=x.html target=_blank>x</a>'', el_text = Some ''x''\<rparr>,
      \<lparr>el_name = ''a'',
       el_attrs = [(''href'', AStr ''y.html''), (''target'', AStr ''_blank''), (''rel'', AToks [''noopener'', ''noreferrer''])],
       el_str = Some ''<a href=y.html target=_blank rel=noopener>y</a>'', el_text = Some ''x''\<rparr>,
      \<lparr>el_name = ''a'', el_attrs = [(''target'', AStr ''_blank'')], el_str = Some ''<a target=_blank>z</a>'', el_text = Some ''x''\<rparr>] =
     Inr \<lparr>javascript_href_links = [],
          target_blank_without_noopener =
            [\<lparr>tb_outer_html = ''<a href=x.html target=_blank>x</a>'', tb_href = ''x.html'',
              tb_href_abs = Some ''https://a.test/x.html'', tb_target = Some (AStr ''_blank''), tb_rel = None\<rparr>],
          links =
            [\<lparr>ln_outer_html = ''<a href=x.html target=_blank>x</a>'', ln_href = ''x.html'',
              ln_href_abs = Some ''https://a.test/x.html''\<rparr>,
             \<lparr>ln_outer_html = ''<a href=y.html target=_blank rel=noopener>y</a>'', ln_href = ''y.html'',
              ln_href_abs = Some ''https://a.test/y.html''\<rparr>]\<rparr> \<and>
   [\<lparr>tb_outer_html = ''<a href=x.html target=_blank>x</a>'', tb_href = ''x.html'',
     tb_href_abs = Some ''https://a.test/x.html'', tb_target = Some (AStr ''_blank''), tb_rel = None\<rparr>] =
   map (tb_record sample_urljoin (Some ''https://a.test/page''))
     (filter blank_without_noopener (find_all_a_href
       [\<lparr>el_name = ''a'', el_attrs = [(''href'', AStr ''x.html''), (''target'', AStr ''_blank'')],
         el_str = Some ''<a href=x.html target=_blank>x</a>'', el_text = Some ''x''\<rparr>,
        \<lparr>el_name = ''a'',
         el_attrs = [(''href'', AStr ''y.html''), (''target'', AStr ''_blank''), (''rel'', AToks [''noopener'', ''noreferrer''])],
         el_str = Some ''<a href=y.html target=_blank rel=noopener>y</a>'', el_text = Some ''x''\<rparr>,
        \<lparr>el_name = ''a'', el_attrs = [(''target'', AStr ''_blank'')], el_str = Some ''<a target=_blank>z</a>'', el_text = Some ''x''\<rparr>]))"
proof -
  have h: "analyze_anchors sample_urljoin (Some ''https://a.test/page'')
     [\<lparr>el_name = ''a'', el_attrs = [(''href'', AStr ''x.html''), (''target'', AStr ''_blank'')],
       el_str = Some ''<a href=x.html target=_blank>x</a>'', el_text = Some ''x''\<rparr>,
      \<lparr>el_name = ''a'',
       el_attrs = [(''href'', AStr ''y.html''), (''target'', AStr ''_blank''), (''rel'', AToks [''noopener'', ''noreferrer''])],
       el_str = Some ''<a href=y.html target=_blank rel=noopener>y</a>'', el_text = Some ''x''\<rparr>,
      \<lparr>el_name = ''a'', el_attrs = [(''target'', AStr ''_blank'')], el_str = Some ''<a target=_blank>z</a>'', el_text = Some ''x''\<rparr>] =
     Inr \<lparr>javascript_href_links = [],
          target_blank_without_noopener =
            [\<lparr>tb_outer_html = ''<a href=x.html target=_blank>x</a>'', tb_href = ''x.html'',
              tb_href_abs = Some ''https://a.test/x.html'', tb_target = Some (AStr ''_blank''), tb_rel = None\<rparr>],
          links =
            [\<lparr>ln_outer_html = ''<a href=x.html target=_blank>x</a>'', ln_href = ''x.html'',
              ln_href_abs = Some ''https://a.test/x.html''\<rparr>,
             \<lparr>ln_outer_html = ''<a href=y.html target=_blank rel=noopener>y</a>'', ln_href = ''y.html'',
              ln_href_abs = Some ''https://a.test/y.html''\<rparr>]\<rparr>"
    by code_simp
  from target_blank_bucket[OF h] h show ?thesis by simp
qed

section \<open>Properties of the compactor\<close>

lemma example_run: "shrink_payload small_limits example_payload 520 = Inr example_compacted"
  by code_simp

text \<open>
  C5. On every assembled payload, with every budget and all limits, the loop of the
  compactor ends within its 20 passes and returns a structure, never an error: the
  result is the payload after \<open>k \<le> 20\<close> passes of the loop body, and when the
  result is still over the budget then \<open>k = 20\<close>, the structure reached at the cap.
\<close>

theorem shrink_returns_within_cap:
  assumes "assembled payload"
  shows "\<exists>k out. k \<le> 20 \<and> shrink_payload cfg payload limit = Inr out \<and>
           iter_step cfg k payload = Inr out \<and>
           (int (size_obj out) \<le> limit \<or> k = 20)"
proof -
  from shrink_loop_pass[OF assms, of 20 cfg limit]
  obtain k where "k \<le> 20"
    and "shrink_loop cfg limit 20 payload = Inr ((pass cfg ^^ k) payload)"
    and "int (size_obj ((pass cfg ^^ k) payload)) \<le> limit \<or> k = 20"
    by blast
  then show ?thesis
    using iter_step_pass[OF assms, of cfg k] by (auto simp: shrink_payload_def)
qed

text \<open>
  An instance with a budget that cannot be met: the empty payload measures 57
  characters, the budget is 0, and the compactor returns the payload.
\<close>

theorem shrink_returns_within_cap_witness:
  "assembled empty_payload \<and>
   (\<exists>k out. k \<le> 20 \<and> shrink_payload default_limits empty_payload 0 = Inr out \<and>
      iter_step default_limits k empty_payload = Inr out \<and>
      (int (size_obj out) \<le> 0 \<or> k = 20)) \<and>
   size_obj empty_payload = 57 \<and>
   shrink_payload default_limits empty_payload 0 = Inr empty_payload"
proof -
  have h: "assembled empty_payload" by code_simp
  have s: "size_obj empty_payload = 57" by code_simp
  have r: "shrink_payload default_limits empty_payload 0 = Inr empty_payload" by code_simp
  from shrink_returns_within_cap[OF h, of default_limits 0] h s r show ?thesis by simp
qed

text \<open>
  C1. On every assembled payload, with every budget and all limits, the output of the
  compactor is the input after whole items were dropped from the end of lists and
  strings stored under keys other than \<^verbatim>\<open>outer_html\<close> were rewritten; and every
  \<^verbatim>\<open>outer_html\<close> string that the output holds, at any position, is the string that
  the input holds at the same position.
\<close>

theorem outer_html_protected:
  assumes "assembled payload" and "shrink_payload cfg payload limit = Inr out"
  shows "compacted payload out \<and>
         (\<forall>p s. lookup (p @ [Key ''outer_html'']) out = Some (JStr s) \<longrightarrow>
                lookup (p @ [Key ''outer_html'']) payload = Some (JStr s))"
proof -
  from shrink_loop_pass[OF assms(1), of 20 cfg limit] assms(2)
  obtain k where "out = (pass cfg ^^ k) payload"
    by (auto simp: shrink_payload_def)
  then have "compacted payload out"
    using compacted_funpow[OF assms(1)] by simp
  then show ?thesis
    using compacted_protected by blast
qed

text \<open>
  An instance: with the small limits and the budget 520 the example payload loses a
  file, an evidence and a form, its long \<^verbatim>\<open>action\<close> is elided, and the
  \<^verbatim>\<open>outer_html\<close> of the form that stays, 90 characters long where the limit for
  strings is 60, is untouched.
\<close>

theorem outer_html_protected_witness:
  "assembled example_payload \<and>
   shrink_payload small_limits example_payload 520 = Inr example_compacted \<and>
   compacted example_payload example_compacted \<and>
   lookup ([Key ''html'', Key ''highlights'', Key ''forms'', Idx 0] @ [Key ''outer_html''])
     example_compacted = Some (JStr long_form) \<and>
   lookup ([Key ''html'', Key ''highlights'', Key ''forms'', Idx 0] @ [Key ''outer_html''])
     example_payload = Some (JStr long_form) \<and>
   length long_form = 90"
proof -
  have h: "assembled example_payload" by code_simp
  note r = example_run
  have l: "lookup ([Key ''html'', Key ''highlights'', Key ''forms'', Idx 0] @ [Key ''outer_html''])
     example_compacted = Some (JStr long_form)" by code_simp
  have n: "length long_form = 90" by code_simp
  from outer_html_protected[OF h r] l h r n show ?thesis by blast
qed

lemma url_run:
  "shrink_payload small_limits (url_payload long_action) 0 = Inr (url_payload long_action_elided)"
  by code_simp

text \<open>
  C3 as the spec states it fails when the maximum for strings is below 51: with
  \<^verbatim>\<open>MAX_STR_FIELD = 50\<close> and the budget 0, which cannot be met, a payload of 124
  characters comes back with 125, because its \<^verbatim>\<open>site_url\<close> of 51 characters is
  replaced by 30 characters, the marker (7 characters when serialized) and 15
  characters.
\<close>

theorem size_grows_counterexample:
  "length url51 = 51 \<and>
   shrink_payload limits_str50 (url_payload url51) 0 =
     Inr (url_payload (take 30 url51 @ [nl] @ ''...'' @ [nl] @ drop 36 url51)) \<and>
   size_obj (url_payload url51) = 124 \<and>
   size_obj (url_payload (take 30 url51 @ [nl] @ ''...'' @ [nl] @ drop 36 url51)) = 125"
  by code_simp

text \<open>
  C3, amended. On every assembled payload, with every budget and with limits whose
  \<^verbatim>\<open>MAX_STR_FIELD\<close> is at least 51 (the default is 4000), the compactor returns a
  structure whose measured size is at most that of the input, and no pass of the loop
  body increases the measured size. When moreover the three maxima for counts are not
  negative, the output measures at most the budget unless it is already reduced to the
  limits: the budget is missed only when everything that the limits allow to cut has
  been cut, that is when the files, the evidences of every file and the records of
  every bucket are within their maxima and the string walk changes nothing. And the
  output measures at most the budget whenever the payload does after some number of
  passes within the cap of 20.
\<close>

theorem size_within_budget_or_input:
  assumes "assembled payload" and "51 \<le> MAX_STR_FIELD cfg"
  shows "\<exists>out. shrink_payload cfg payload limit = Inr out \<and>
           size_obj out \<le> size_obj payload \<and>
           (counts_nonneg cfg \<longrightarrow> int (size_obj out) \<le> limit \<or> reduced cfg out) \<and>
           (\<forall>k q. iter_step cfg k payload = Inr q \<longrightarrow>
                   (\<exists>q'. shrink_step cfg q = Inr q' \<and> size_obj q' \<le> size_obj q)) \<and>
           (\<forall>k q. k \<le> 20 \<and> iter_step cfg k payload = Inr q \<and> int (size_obj q) \<le> limit
                   \<longrightarrow> int (size_obj out) \<le> limit)"
proof -
  from shrink_loop_pass[OF assms(1), of 20 cfg limit]
  obtain k where k: "k \<le> 20"
    and r: "shrink_loop cfg limit 20 payload = Inr ((pass cfg ^^ k) payload)"
    and s: "int (size_obj ((pass cfg ^^ k) payload)) \<le> limit \<or> k = 20"
    and a: "\<forall>i < k. \<not> int (size_obj ((pass cfg ^^ i) payload)) \<le> limit"
    by blast
  let ?out = "(pass cfg ^^ k) payload"
  have 1: "shrink_payload cfg payload limit = Inr ?out"
    using r by (simp add: shrink_payload_def)
  have 2: "size_obj ?out \<le> size_obj payload"
    by (rule size_funpow[OF assms])
  have 3: "int (size_obj ?out) \<le> limit \<or> reduced cfg ?out" if c: "counts_nonneg cfg"
    using s
  proof
    assume "int (size_obj ?out) \<le> limit"
    then show ?thesis ..
  next
    assume k20: "k = 20"
    from assms(2) have "4 \<le> MAX_STR_FIELD cfg" by simp
    from reduced_at_cap[OF assms(1) c this] show ?thesis unfolding k20 ..
  qed
  have 4: "\<exists>q'. shrink_step cfg q = Inr q' \<and> size_obj q' \<le> size_obj q"
    if "iter_step cfg k' payload = Inr q" for k' q
  proof -
    from that have q: "q = (pass cfg ^^ k') payload"
      by (simp add: iter_step_pass[OF assms(1)])
    then have aq: "assembled q" by (simp add: assembled_funpow[OF assms(1)])
    from step_pass[OF aq] size_pass[OF aq assms(2)] show ?thesis by blast
  qed
  have 5: "int (size_obj ?out) \<le> limit"
    if "k' \<le> 20" "iter_step cfg k' payload = Inr q" "int (size_obj q) \<le> limit" for k' q
  proof -
    from that(2) have q: "q = (pass cfg ^^ k') payload"
      by (simp add: iter_step_pass[OF assms(1)])
    show ?thesis
    proof (cases "k' < k")
      case True
      with a q that(3) show ?thesis by blast
    next
      case False
      with s k that(1) q that(3) show ?thesis by (cases "k = 20") auto
    qed
  qed
  from 1 2 3 4 5 show ?thesis by blast
qed

text \<open>
  Two instances with the small limits. With the budget 520 the example payload comes
  back with 520 characters instead of 693. With the budget 0, which cannot be met, the
  payload with the long \<^verbatim>\<open>site_url\<close> comes back reduced to the limits, 134
  characters long.
\<close>

theorem size_within_budget_or_input_witness:
  "assembled example_payload \<and> 51 \<le> MAX_STR_FIELD small_limits \<and>
   counts_nonneg small_limits \<and>
   shrink_payload small_limits example_payload 520 = Inr example_compacted \<and>
   size_obj example_compacted \<le> size_obj example_payload \<and>
   size_obj example_payload = 693 \<and> size_obj example_compacted = 520 \<and>
   assembled (url_payload long_action) \<and>
   shrink_payload small_limits (url_payload long_action) 0 = Inr (url_payload long_action_elided) \<and>
   size_obj (url_payload long_action_elided) = 134 \<and>
   reduced small_limits (url_payload long_action_elided)"
proof -
  have h: "assembled example_payload" by code_simp
  have m: "51 \<le> MAX_STR_FIELD small_limits" by (simp add: small_limits_def)
  have c: "counts_nonneg small_limits" by code_simp
  have a: "size_obj example_payload = 693" by code_simp
  have b: "size_obj example_compacted = 520" by code_simp
  have h': "assembled (url_payload long_action)" by code_simp
  have n: "size_obj (url_payload long_action_elided) = 134" by code_simp
  from size_within_budget_or_input[OF h m, of 520] example_run
  have 1: "size_obj example_compacted \<le> size_obj example_payload" by auto
  from size_within_budget_or_input[OF h' m, of 0] url_run c n
  have 2: "reduced small_limits (url_payload long_action_elided)" by auto
  from h m c a b h' n 1 2 example_run url_run show ?thesis by simp
qed

text \<open>
  The cap can end the loop before it has converged. With \<^verbatim>\<open>MAX_STR_FIELD = 3\<close> the
  tail \<^verbatim>\<open>s[-0:]\<close> of the elided form is the whole string, every pass makes
  \<^verbatim>\<open>site_url\<close> longer, and a second run on the output of the first returns a
  different structure; with \<^verbatim>\<open>MAX_HTML_EVIDENCE_PER_BUCKET = -1\<close> every pass drops
  one record of the bucket, and of 25 records the first run leaves 5 and the second
  none. Such an output is not a converged one.
\<close>

lemma cap_before_convergence:
  "shrink_twice limits_str3 (url_payload ''abcd'') 0 \<noteq>
     shrink_payload limits_str3 (url_payload ''abcd'') 0 \<and>
   shrink_payload limits_bucket_neg (bucket_payload 25) 0 = Inr (bucket_payload 5) \<and>
   shrink_payload limits_bucket_neg (bucket_payload 5) 0 = Inr (bucket_payload 0)"
  by code_simp

text \<open>
  C4. The compactor is idempotent once converged. An output has converged when it
  measures at most the budget or when a pass of the loop body returns it unchanged. For
  every payload, budget and limits, the compactor applied to a converged output of
  its own, with the same budget and limits, returns that output. And the output has
  always converged when the payload is an assembled one, the three maxima for counts
  are not negative and \<^verbatim>\<open>MAX_STR_FIELD\<close> is at least 4.
\<close>

theorem shrink_idempotent:
  assumes "shrink_payload cfg payload limit = Inr out"
  shows "(int (size_obj out) \<le> limit \<or> shrink_step cfg out = Inr out \<longrightarrow>
            shrink_payload cfg out limit = Inr out) \<and>
         (assembled payload \<and> counts_nonneg cfg \<and> 4 \<le> MAX_STR_FIELD cfg \<longrightarrow>
            int (size_obj out) \<le> limit \<or> shrink_step cfg out = Inr out)"
proof (intro conjI impI)
  assume "int (size_obj out) \<le> limit \<or> shrink_step cfg out = Inr out"
  then show "shrink_payload cfg out limit = Inr out"
    by (rule shrink_payload_converged)
next
  assume h: "assembled payload \<and> counts_nonneg cfg \<and> 4 \<le> MAX_STR_FIELD cfg"
  then have a: "assembled payload" and c: "counts_nonneg cfg" and m: "4 \<le> MAX_STR_FIELD cfg"
    by simp_all
  from shrink_loop_pass[OF a, of 20 cfg limit] assms
  obtain k where o: "out = (pass cfg ^^ k) payload"
    and s: "int (size_obj out) \<le> limit \<or> k = 20"
    by (auto simp: shrink_payload_def)
  from s show "int (size_obj out) \<le> limit \<or> shrink_step cfg out = Inr out"
  proof
    assume "int (size_obj out) \<le> limit"
    then show ?thesis ..
  next
    assume k: "k = 20"
    have "assembled out" unfolding o by (rule assembled_funpow[OF a])
    from step_pass[OF this, of cfg] pass_fixed_at_cap[OF a c m]
    have "shrink_step cfg out = Inr out" unfolding o k by simp
    then show ?thesis ..
  qed
qed

text \<open>
  Two instances with the budget 0, which cannot be met. With the bucket maximum -1 the
  loop empties a bucket of 7 records within the cap, a further pass returns the empty
  bucket unchanged, and the second run returns the output of the first. With the
  small limits the \<^verbatim>\<open>site_url\<close> of 67 characters is elided to 59, the output has
  converged, and the second run returns it.
\<close>

theorem shrink_idempotent_witness:
  "shrink_payload limits_bucket_neg (bucket_payload 7) 0 = Inr (bucket_payload 0) \<and>
   shrink_step limits_bucket_neg (bucket_payload 0) = Inr (bucket_payload 0) \<and>
   shrink_payload limits_bucket_neg (bucket_payload 0) 0 = Inr (bucket_payload 0) \<and>
   assembled (url_payload long_action) \<and> counts_nonneg small_limits \<and>
   4 \<le> MAX_STR_FIELD small_limits \<and>
   shrink_payload small_limits (url_payload long_action) 0 = Inr (url_payload long_action_elided) \<and>
   size_obj (url_payload long_action_elided) = 134 \<and>
   shrink_step small_limits (url_payload long_action_elided) = Inr (url_payload long_action_elided) \<and>
   shrink_payload small_limits (url_payload long_action_elided) 0 = Inr (url_payload long_action_elided)"
proof -
  have r: "shrink_payload limits_bucket_neg (bucket_payload 7) 0 = Inr (bucket_payload 0)"
    by code_simp
  have f: "shrink_step limits_bucket_neg (bucket_payload 0) = Inr (bucket_payload 0)"
    by code_simp
  have h: "assembled (url_payload long_action)" by code_simp
  have c: "counts_nonneg small_limits" by code_simp
  have m: "4 \<le> MAX_STR_FIELD small_limits" by (simp add: small_limits_def)
  have n: "size_obj (url_payload long_action_elided) = 134" by code_simp
  from shrink_idempotent[OF r] f
  have 1: "shrink_payload limits_bucket_neg (bucket_payload 0) 0 = Inr (bucket_payload 0)"
    by simp
  from shrink_idempotent[OF url_run] h c m n
  have 2: "shrink_step small_limits (url_payload long_action_elided) = Inr (url_payload long_action_elided)"
    by simp
  with shrink_idempotent[OF url_run]
  have 3: "shrink_payload small_limits (url_payload long_action_elided) 0 = Inr (url_payload long_action_elided)"
    by simp
  from r f 1 h c m n 2 3 url_run show ?thesis by simp
qed

end
